theory Spec2Isabelle
  imports Main "HOL-Library.Word" "HOL-Library.AList"
begin

section \<open>su-exec: set user and group id and exec\<close>

text \<open>
  A shallow embedding of \<^verbatim>\<open>src/scripts/agent/su-exec.c\<close>. The program is a single
  \<^verbatim>\<open>main\<close> with two helpers (\<^verbatim>\<open>str_occurrences\<close>, \<^verbatim>\<open>get_gid\<close>) that talks to libc
  and to the kernel. The embedding keeps the helpers, cuts \<^verbatim>\<open>main\<close> into its consecutive
  blocks (one definition per block, named after what the block does, with the source lines
  in its comment) and makes everything outside the program explicit:

  \<^item> a C string is the list of its characters before the terminating NUL;
  \<^item> \<^verbatim>\<open>uid_t\<close> and \<^verbatim>\<open>gid_t\<close> are 32-bit unsigned words, \<^verbatim>\<open>long\<close> has 64 bits (LP64, the
    Linux targets of the agent), \<^verbatim>\<open>int\<close> counters are unbounded integers (a count of
    commas in one argument stays far below \<open>2 ^ 31\<close>);
  \<^item> the user and group databases, the answers of \<^verbatim>\<open>getgrouplist\<close>, of the allocator and of
    the kernel are fields of a record \<open>os\<close>, so that every theorem holds for every system;
  \<^item> the process is a record \<open>proc\<close>: environment, supplementary groups, standard output,
    and the trace of library calls and system calls made so far, in order (the uid and the
    gid that the program asks for are read off the \<^verbatim>\<open>setuid\<close> and \<^verbatim>\<open>setgid\<close> calls in the trace);
  \<^item> \<^verbatim>\<open>err(1, ...)\<close>, \<^verbatim>\<open>exit\<close>, a successful \<^verbatim>\<open>execvp\<close> and undefined behaviour end the run:
    they are the values of \<open>outcome\<close>;
  \<^item> a heap buffer of \<^verbatim>\<open>gid_t\<close> is a list of optional words: \<open>None\<close> is a slot that
    \<^verbatim>\<open>malloc\<close> or \<^verbatim>\<open>realloc\<close> handed out and nobody has written yet (an indeterminate value);
  \<^item> \<^verbatim>\<open>setenv\<close> is taken to succeed (the program ignores its result).
\<close>

subsection \<open>C strings and the libc functions on them\<close>

type_synonym uid_t = "32 word"
type_synonym gid_t = "32 word"

text \<open>\<^verbatim>\<open>isspace\<close> and \<^verbatim>\<open>isdigit\<close> in the C locale (the program never calls \<^verbatim>\<open>setlocale\<close>).\<close>

definition isspace :: "char \<Rightarrow> bool" where
  "isspace c \<longleftrightarrow> c \<in> set [CHR '' '', CHR 0x09, CHR 0x0A, CHR 0x0B, CHR 0x0C, CHR 0x0D]"

definition isdigit :: "char \<Rightarrow> bool" where
  "isdigit c \<longleftrightarrow> c \<in> set ''0123456789''"

definition digit_val :: "char \<Rightarrow> int" where
  "digit_val c = of_char c - 48"

definition decimal :: "string \<Rightarrow> int" where
  "decimal ds = foldl (\<lambda>a c. 10 * a + digit_val c) 0 ds"

definition LONG_MAX :: int where
  "LONG_MAX = 2 ^ 63 - 1"

definition LONG_MIN :: int where
  "LONG_MIN = - (2 ^ 63)"

definition clamp_long :: "int \<Rightarrow> int" where
  "clamp_long v = (if v > LONG_MAX then LONG_MAX else if v < LONG_MIN then LONG_MIN else v)"

fun strtol_sign :: "string \<Rightarrow> bool \<times> string" where
  "strtol_sign [] = (False, [])"
| "strtol_sign (c # cs) =
     (if c = CHR ''-'' then (True, cs)
      else if c = CHR ''+'' then (False, cs)
      else (False, c # cs))"

text \<open>
  \<^verbatim>\<open>strtol(s, &end, 10)\<close> as ISO C specifies it: white space is skipped, then an optional
  sign, then the longest run of decimal digits. The result is the value (clamped to the
  range of \<^verbatim>\<open>long\<close>) and the index \<^verbatim>\<open>end - s\<close>. With no digit at all the value is 0
  and \<^verbatim>\<open>end = s\<close>. The test \<^verbatim>\<open>*end == '\0'\<close> of the program is \<open>end = length s\<close>.
\<close>

definition strtol :: "string \<Rightarrow> int \<times> nat" where
  "strtol s =
     (case strtol_sign (dropWhile isspace s) of (neg, r) \<Rightarrow>
        let ds = takeWhile isdigit r; rest = dropWhile isdigit r
        in if ds = [] then (0, 0)
           else (clamp_long (if neg then - decimal ds else decimal ds),
                 length s - length rest))"

text \<open>\<^verbatim>\<open>strchr(s, c)\<close>: the index of the first \<open>c\<close> in \<open>s\<close>, \<open>None\<close> for \<^verbatim>\<open>NULL\<close>.\<close>

fun strchr :: "string \<Rightarrow> char \<Rightarrow> nat option" where
  "strchr [] c = None"
| "strchr (x # xs) c = (if x = c then Some 0 else map_option Suc (strchr xs c))"

text \<open>
  \<^verbatim>\<open>strtok\<close>: the first argument is the string to scan (the saved position on a call
  with \<^verbatim>\<open>NULL\<close>). Leading delimiters are skipped; at the end of the string the result is
  \<^verbatim>\<open>NULL\<close>; otherwise the token runs up to the next delimiter, which is overwritten
  with NUL, and the scan position is saved behind it. The result is the token (or
  \<open>None\<close>) and the new saved position.
\<close>

definition strtok :: "string \<Rightarrow> string \<Rightarrow> string option \<times> string" where
  "strtok s delim =
     (let s1 = dropWhile (\<lambda>c. c \<in> set delim) s
      in if s1 = [] then (None, [])
         else (Some (takeWhile (\<lambda>c. c \<notin> set delim) s1),
               drop 1 (dropWhile (\<lambda>c. c \<notin> set delim) s1)))"

text \<open>The \<^verbatim>\<open>for\<close> loop of \<^verbatim>\<open>str_occurrences\<close>, with its counter.\<close>

fun str_occurrences_loop :: "string \<Rightarrow> char \<Rightarrow> int \<Rightarrow> int" where
  "str_occurrences_loop [] tok count = count"
| "str_occurrences_loop (c # cs) tok count =
     str_occurrences_loop cs tok (if c = tok then count + 1 else count)"

definition str_occurrences :: "string \<Rightarrow> char \<Rightarrow> int" where
  "str_occurrences str tok = str_occurrences_loop str tok 0"

subsection \<open>The system and the process\<close>

record passwd =
  pw_name :: string
  pw_uid :: uid_t
  pw_gid :: gid_t
  pw_dir :: string

record grp =
  gr_name :: string
  gr_gid :: gid_t

type_synonym gidbuf = "gid_t option list"

text \<open>
  What the program cannot decide by itself. \<open>getgrouplist_resp name gid n\<close> is the answer
  of \<^verbatim>\<open>getgrouplist(name, gid, glist, &ngroups)\<close> called with \<^verbatim>\<open>ngroups = n\<close>: the return
  value, the new value of \<^verbatim>\<open>ngroups\<close>, and the entries stored from \<^verbatim>\<open>glist[0]\<close> on.
  \<open>malloc_ok\<close> and \<open>realloc_ok\<close> say whether a request of that many bytes is served;
  the \<open>*_ok\<close> fields of the kernel say whether the call returns 0. An answer depends on
  the arguments of the call only: the databases do not change while the program runs, and
  the program makes each of the kernel calls at most once.
\<close>

record os =
  getuid :: uid_t
  getgid :: gid_t
  passwd_db :: "passwd list"
  group_db :: "grp list"
  getgrouplist_resp :: "string \<Rightarrow> gid_t \<Rightarrow> int \<Rightarrow> int \<times> int \<times> gid_t list"
  malloc_ok :: "nat \<Rightarrow> bool"
  realloc_ok :: "nat \<Rightarrow> bool"
  setgroups_ok :: "gidbuf \<Rightarrow> bool"
  setgid_ok :: "gid_t \<Rightarrow> bool"
  setuid_ok :: "uid_t \<Rightarrow> bool"
  execvp_ok :: "string list \<Rightarrow> bool"

definition getpwnam :: "os \<Rightarrow> string \<Rightarrow> passwd option" where
  "getpwnam sys name = find (\<lambda>e. pw_name e = name) (passwd_db sys)"

definition getpwuid :: "os \<Rightarrow> uid_t \<Rightarrow> passwd option" where
  "getpwuid sys uid = find (\<lambda>e. pw_uid e = uid) (passwd_db sys)"

definition getgrnam :: "os \<Rightarrow> string \<Rightarrow> grp option" where
  "getgrnam sys name = find (\<lambda>e. gr_name e = name) (group_db sys)"

datatype event =
    Getpwnam string
  | Getpwuid uid_t
  | Getgrnam string
  | Getgrouplist string gid_t int
  | Setenv string string
  | Setgroups gidbuf
  | Setgid gid_t
  | Setuid uid_t
  | Execvp "string list"

record proc =
  p_env :: "(string \<times> string) list"
  p_groups :: gidbuf
  p_stdout :: string
  p_trace :: "event list"

definition log_event :: "event \<Rightarrow> proc \<Rightarrow> proc" where
  "log_event e p = p\<lparr>p_trace := p_trace p @ [e]\<rparr>"

text \<open>The messages of the \<^verbatim>\<open>err(1, ...)\<close> calls, one constructor per call site.\<close>

datatype error =
    Err_getgrnam string
  | Err_getpwnam string
  | Err_setgroups1 gid_t
  | Err_setgroups_list
  | Err_setgroups
  | Err_malloc
  | Err_setgid gid_t
  | Err_setuid uid_t
  | Err_exec string

text \<open>
  How a run ends: \<open>Exit n\<close> is \<^verbatim>\<open>exit(n)\<close>, \<open>Err e\<close> is \<^verbatim>\<open>err(1, ...)\<close> (the message on
  standard error, exit status 1), \<open>Exec argv\<close> is a successful \<^verbatim>\<open>execvp\<close>, and
  \<open>Undefined\<close> is undefined behaviour of C (a null pointer passed on or written through).
\<close>

datatype outcome = Exit int | Err error | Exec "string list" | Undefined

subsection \<open>Library calls and system calls of the program\<close>

definition setenv :: "string \<Rightarrow> string \<Rightarrow> proc \<Rightarrow> proc" where
  \<comment> \<open>\<^verbatim>\<open>setenv(name, value, 1)\<close>: the first entry for \<open>name\<close> is replaced, or one is added.\<close>
  "setenv name val p =
     log_event (Setenv name val) (p\<lparr>p_env := AList.update name val (p_env p)\<rparr>)"

definition setgroups :: "os \<Rightarrow> gidbuf \<Rightarrow> proc \<Rightarrow> bool \<times> proc" where
  \<comment> \<open>\<^verbatim>\<open>setgroups(size, list)\<close>, \<open>gl\<close> the \<open>size\<close> entries read; \<open>True\<close> when it returns 0.\<close>
  "setgroups sys gl p =
     (let p1 = log_event (Setgroups gl) p
      in if setgroups_ok sys gl then (True, p1\<lparr>p_groups := gl\<rparr>) else (False, p1))"

definition setgid :: "os \<Rightarrow> gid_t \<Rightarrow> proc \<Rightarrow> bool \<times> proc" where
  "setgid sys gid p = (setgid_ok sys gid, log_event (Setgid gid) p)"

definition setuid :: "os \<Rightarrow> uid_t \<Rightarrow> proc \<Rightarrow> bool \<times> proc" where
  "setuid sys uid p = (setuid_ok sys uid, log_event (Setuid uid) p)"

subsection \<open>The program\<close>

text \<open>
  \<^verbatim>\<open>usage\<close> (lines 17-21). The global \<^verbatim>\<open>argv0\<close> is a parameter; it is \<^verbatim>\<open>NULL\<close> when the
  program is started with an empty argument vector, which \<^verbatim>\<open>printf\<close> of glibc and musl
  prints as \<^verbatim>\<open>(null)\<close>.
\<close>

definition usage_text :: "string option \<Rightarrow> string" where
  "usage_text argv0 =
     ''Usage: '' @ (case argv0 of None \<Rightarrow> ''(null)'' | Some a \<Rightarrow> a)
       @ '' user-spec command [args]'' @ [CHR 0x0A]"

definition usage :: "string option \<Rightarrow> proc \<Rightarrow> int \<Rightarrow> outcome \<times> proc" where
  "usage argv0 p exitcode = (Exit exitcode, p\<lparr>p_stdout := p_stdout p @ usage_text argv0\<rparr>)"

text \<open>
  \<^verbatim>\<open>get_gid\<close> (lines 34-48). The \<^verbatim>\<open>long\<close> of \<^verbatim>\<open>strtol\<close> is converted to \<^verbatim>\<open>gid_t\<close>, that is
  reduced modulo \<open>2 ^ 32\<close>. \<open>Inl\<close> is the end of the run, \<open>Inr\<close> the returned gid.
\<close>

definition get_gid :: "os \<Rightarrow> proc \<Rightarrow> string \<Rightarrow> (outcome \<times> proc) + (gid_t \<times> proc)" where
  "get_gid sys p ref =
     (case strtol ref of (v, e) \<Rightarrow>
        let ngid = (word_of_int v :: gid_t)
        in if e = length ref then Inr (ngid, p)
           else
             (let p1 = log_event (Getgrnam ref) p
              in case getgrnam sys ref of
                   None \<Rightarrow> Inl (Err (Err_getgrnam ref), p1)
                 | Some gr \<Rightarrow> Inr (gr_gid gr, p1)))"

text \<open>Lines 62-65 of \<^verbatim>\<open>main\<close>: the user-spec is cut at the first colon.\<close>

definition split_user_spec :: "string \<Rightarrow> string \<times> string option" where
  "split_user_spec arg1 =
     (case strchr arg1 CHR '':'' of
        None \<Rightarrow> (arg1, None)
      | Some i \<Rightarrow> (take i arg1, Some (drop (Suc i) arg1)))"

text \<open>
  Lines 55-56 and 69-90 of \<^verbatim>\<open>main\<close>: \<^verbatim>\<open>uid\<close> and \<^verbatim>\<open>gid\<close> start as the caller's, the
  user part is parsed or looked up, and the record of the uid (if there is one) overrides
  both. The result is \<^verbatim>\<open>uid\<close>, \<^verbatim>\<open>gid\<close> and \<^verbatim>\<open>pw\<close>.
\<close>

definition resolve_user ::
  "os \<Rightarrow> proc \<Rightarrow> string \<Rightarrow> (outcome \<times> proc) + ((uid_t \<times> gid_t \<times> passwd option) \<times> proc)" where
  "resolve_user sys p user =
     (let uid = getuid sys; gid = getgid sys
      in case
           (if user \<noteq> [] then
              (case strtol user of (v, e) \<Rightarrow>
                 let nuid = (word_of_int v :: uid_t)
                 in if e = length user then Inr (nuid, None, p)
                    else
                      (let p1 = log_event (Getpwnam user) p
                       in case getpwnam sys user of
                            None \<Rightarrow> Inl (Err (Err_getpwnam user), p1)
                          | Some e \<Rightarrow> Inr (uid, Some e, p1)))
            else Inr (uid, None, p))
         of
           Inl t \<Rightarrow> Inl t
         | Inr (uid, pw, p1) \<Rightarrow>
             (case (case pw of
                      None \<Rightarrow> (getpwuid sys uid, log_event (Getpwuid uid) p1)
                    | Some e \<Rightarrow> (Some e, p1))
              of (pw, p2) \<Rightarrow>
                (case pw of
                   None \<Rightarrow> Inr ((uid, gid, None), p2)
                 | Some e \<Rightarrow> Inr ((pw_uid e, pw_gid e, Some e), p2))))"

text \<open>
  The \<^verbatim>\<open>while (token != NULL)\<close> loop of lines 119-125: \<open>token\<close> is the token in hand,
  \<open>save\<close> the position \<^verbatim>\<open>strtok\<close> keeps, \<open>i\<close> the index written last. A write outside
  the buffer would be undefined behaviour.
\<close>

lemma strtok_save_shorter: "strtok s delim = (Some t, save) \<Longrightarrow> length save < length s"
proof -
  assume a: "strtok s delim = (Some t, save)"
  let ?s1 = "dropWhile (\<lambda>c. c \<in> set delim) s"
  from a have ne: "?s1 \<noteq> []" and sv: "save = drop 1 (dropWhile (\<lambda>c. c \<notin> set delim) ?s1)"
    by (auto simp: strtok_def Let_def split: if_splits)
  have "length save \<le> length ?s1 - 1"
    unfolding sv by (simp add: length_dropWhile_le diff_le_mono)
  moreover have "0 < length ?s1" using ne by simp
  moreover have "length ?s1 \<le> length s" by (rule length_dropWhile_le)
  ultimately show ?thesis by linarith
qed

function gidlist_loop ::
  "os \<Rightarrow> proc \<Rightarrow> string option \<Rightarrow> string \<Rightarrow> nat \<Rightarrow> gidbuf \<Rightarrow> (outcome \<times> proc) + (gidbuf \<times> proc)" where
  "gidlist_loop sys p None save i gidlist = Inr (gidlist, p)"
| "gidlist_loop sys p (Some token) save i gidlist =
     (let i1 = i + 1
      in case get_gid sys p token of
           Inl t \<Rightarrow> Inl t
         | Inr (g, p1) \<Rightarrow>
             if i1 < length gidlist then
               (case strtok save '','' of (token1, save1) \<Rightarrow>
                  gidlist_loop sys p1 token1 save1 i1 (gidlist[i1 := Some g]))
             else Inl (Undefined, p1))"
  by pat_completeness auto
termination
  by (relation "measure (\<lambda>(sys, p, token, save, i, gidlist).
        case token of None \<Rightarrow> 0 | Some t \<Rightarrow> Suc (length save))")
     (auto split: option.splits dest: strtok_save_shorter [OF sym])

text \<open>
  Lines 94-129 of \<^verbatim>\<open>main\<close>, the branch taken when a non-empty group part was given:
  the result is the new \<^verbatim>\<open>gid\<close>. \<^verbatim>\<open>malloc\<close> is not checked by the program, so a failed
  \<^verbatim>\<open>malloc\<close> is a write through a null pointer at line 117; \<^verbatim>\<open>strtok\<close> returns \<^verbatim>\<open>NULL\<close> at
  line 115 when the group part holds commas only, and \<^verbatim>\<open>get_gid(NULL)\<close> reads through it.
\<close>

definition set_explicit_groups ::
  "os \<Rightarrow> proc \<Rightarrow> string \<Rightarrow> (outcome \<times> proc) + (gid_t \<times> proc)" where
  "set_explicit_groups sys p group_part =
     (let group_cnt = str_occurrences group_part CHR '','' + 1
      in if group_cnt = 1 then
           (case get_gid sys p group_part of
              Inl t \<Rightarrow> Inl t
            | Inr (gid, p1) \<Rightarrow>
                (case setgroups sys [Some gid] p1 of (ok, p2) \<Rightarrow>
                   if ok then Inr (gid, p2) else Inl (Err (Err_setgroups1 gid), p2)))
         else
           (let gidlist = (if malloc_ok sys (4 * nat group_cnt)
                           then Some (replicate (nat group_cnt) None) else None)
            in case strtok group_part '','' of
                 (None, save) \<Rightarrow> Inl (Undefined, p)
               | (Some token, save) \<Rightarrow>
                   (case get_gid sys p token of
                      Inl t \<Rightarrow> Inl t
                    | Inr (gid, p1) \<Rightarrow>
                        (case gidlist of
                           None \<Rightarrow> Inl (Undefined, p1)
                         | Some gl \<Rightarrow>
                             (case strtok save '','' of (token1, save1) \<Rightarrow>
                                (case gidlist_loop sys p1 token1 save1 0 (gl[0 := Some gid]) of
                                   Inl t \<Rightarrow> Inl t
                                 | Inr (gl1, p2) \<Rightarrow>
                                     (case setgroups sys (take (nat group_cnt) gl1) p2 of
                                        (ok, p3) \<Rightarrow>
                                          if ok then Inr (gid, p3)
                                          else Inl (Err Err_setgroups_list, p3))))))))"

text \<open>
  The test of line 94 around that branch: with a non-empty group part \<^verbatim>\<open>pw\<close> is reset
  to \<^verbatim>\<open>NULL\<close> and \<^verbatim>\<open>gid\<close> replaced; otherwise both stay.
\<close>

definition explicit_groups ::
  "os \<Rightarrow> proc \<Rightarrow> string option \<Rightarrow> gid_t \<Rightarrow> passwd option
     \<Rightarrow> (outcome \<times> proc) + ((gid_t \<times> passwd option) \<times> proc)" where
  "explicit_groups sys p group_part gid pw =
     (case group_part of
        None \<Rightarrow> Inr ((gid, pw), p)
      | Some g \<Rightarrow>
          if g \<noteq> [] then
            (case set_explicit_groups sys p g of
               Inl t \<Rightarrow> Inl t
             | Inr (gid1, p1) \<Rightarrow> Inr ((gid1, None), p1))
          else Inr ((gid, pw), p))"

text \<open>
  The \<^verbatim>\<open>while (1)\<close> loop of lines 136-150. \<open>ngroups\<close> and \<open>glist\<close> are the loop's
  variables (0 and \<^verbatim>\<open>NULL\<close>, the empty buffer, at entry). \<^verbatim>\<open>getgrouplist\<close> stores at most
  \<open>ngroups\<close> entries and never more than the buffer holds. \<^verbatim>\<open>ngroups * sizeof(gid_t)\<close> is
  computed in \<^verbatim>\<open>size_t\<close>, modulo \<open>2 ^ 64\<close>. When the call succeeds, \<^verbatim>\<open>setgroups\<close> reads
  \<open>ngroups\<close> entries of the buffer; a count that the buffer does not have sends the kernel
  outside it. The loop has no other exit: the function is partial, and \<open>None\<close> is a run
  that never leaves the loop.
\<close>

definition store_gids :: "gidbuf \<Rightarrow> int \<Rightarrow> gid_t list \<Rightarrow> gidbuf" where
  "store_gids glist ngroups stored =
     (let k = min (min (nat ngroups) (length glist)) (length stored)
      in map Some (take k stored) @ drop k glist)"

definition realloc_size :: "int \<Rightarrow> nat" where
  "realloc_size ngroups = nat ((ngroups * 4) mod 2 ^ 64)"

text \<open>
  \<^verbatim>\<open>realloc(glist, nbytes)\<close>: \<open>None\<close> is \<^verbatim>\<open>NULL\<close>; otherwise the buffer keeps its entries as
  far as the new size goes and has room for \<open>nbytes div 4\<close> entries of \<^verbatim>\<open>gid_t\<close>.
\<close>

definition realloc :: "os \<Rightarrow> gidbuf \<Rightarrow> nat \<Rightarrow> gidbuf option" where
  "realloc sys glist nbytes =
     (if realloc_ok sys nbytes then
        (let cap = nbytes div 4
         in Some (take cap glist @ replicate (cap - length glist) None))
      else None)"

partial_function (option) getgrouplist_loop ::
  "os \<Rightarrow> string \<Rightarrow> gid_t \<Rightarrow> proc \<Rightarrow> int \<Rightarrow> gidbuf \<Rightarrow> ((outcome \<times> proc) + proc) option" where
  "getgrouplist_loop sys name gid p ngroups glist =
     (case getgrouplist_resp sys name gid ngroups of (r, ngroups1, stored) \<Rightarrow>
        let p1 = log_event (Getgrouplist name gid ngroups) p;
            glist1 = store_gids glist ngroups stored
        in if r \<ge> 0 then
             (if 0 \<le> ngroups1 \<and> nat ngroups1 \<le> length glist1 then
                (case setgroups sys (take (nat ngroups1) glist1) p1 of (ok, p2) \<Rightarrow>
                   if ok then Some (Inr p2) else Some (Inl (Err Err_setgroups, p2)))
              else Some (Inl (Undefined, p1)))
           else
             (case realloc sys glist1 (realloc_size ngroups1) of
                None \<Rightarrow> Some (Inl (Err Err_malloc, p1))
              | Some glist2 \<Rightarrow> getgrouplist_loop sys name gid p1 ngroups1 glist2))"

declare getgrouplist_loop.simps [code]

text \<open>Lines 131-151 of \<^verbatim>\<open>main\<close>: the loop runs only when \<^verbatim>\<open>pw\<close> is not \<^verbatim>\<open>NULL\<close>.\<close>

definition passwd_groups ::
  "os \<Rightarrow> proc \<Rightarrow> passwd option \<Rightarrow> gid_t \<Rightarrow> ((outcome \<times> proc) + proc) option" where
  "passwd_groups sys p pw gid =
     (case pw of
        None \<Rightarrow> Some (Inr p)
      | Some e \<Rightarrow> getgrouplist_loop sys (pw_name e) gid p 0 [])"

text \<open>Lines 153-160 of \<^verbatim>\<open>main\<close>: gid, then uid, then the new process image.\<close>

definition drop_and_exec ::
  "os \<Rightarrow> proc \<Rightarrow> gid_t \<Rightarrow> uid_t \<Rightarrow> string list \<Rightarrow> outcome \<times> proc" where
  "drop_and_exec sys p gid uid cmdargv =
     (case setgid sys gid p of (ok, p1) \<Rightarrow>
        if \<not> ok then (Err (Err_setgid gid), p1)
        else
          (case setuid sys uid p1 of (ok, p2) \<Rightarrow>
             if \<not> ok then (Err (Err_setuid uid), p2)
             else
               (case cmdargv of
                  [] \<Rightarrow> (Undefined, p2)
                | c # args \<Rightarrow>
                    (let p3 = log_event (Execvp cmdargv) p2
                     in if execvp_ok sys cmdargv then (Exec cmdargv, p3)
                        else (Err (Err_exec c), p3)))))"

text \<open>
  \<^verbatim>\<open>main\<close> (lines 50-163): \<open>argv\<close> is the argument vector, \<^verbatim>\<open>argc\<close> its length. The
  result is how the run ends and the process at that moment, or \<open>None\<close> for a run that
  does not end.
\<close>

definition main :: "os \<Rightarrow> proc \<Rightarrow> string list \<Rightarrow> (outcome \<times> proc) option" where
  "main sys p argv =
     (let argv0 = (case argv of [] \<Rightarrow> None | a # as \<Rightarrow> Some a)
      in if int (length argv) < 3 then Some (usage argv0 p 0)
         else
           (case split_user_spec (argv ! 1) of (user, group_part) \<Rightarrow>
              let cmdargv = drop 2 argv
              in case resolve_user sys p user of
                   Inl t \<Rightarrow> Some t
                 | Inr ((uid, gid, pw), p1) \<Rightarrow>
                     (let p2 = setenv ''HOME''
                                 (case pw of Some e \<Rightarrow> pw_dir e | None \<Rightarrow> ''/'') p1
                      in case explicit_groups sys p2 group_part gid pw of
                           Inl t \<Rightarrow> Some t
                         | Inr ((gid1, pw1), p3) \<Rightarrow>
                             (case passwd_groups sys p3 pw1 gid1 of
                                None \<Rightarrow> None
                              | Some (Inl t) \<Rightarrow> Some t
                              | Some (Inr p4) \<Rightarrow>
                                  Some (drop_and_exec sys p4 gid1 uid cmdargv)))))"

subsection \<open>Functions that state what the program computes\<close>

text \<open>
  A token is numeric for the program when \<^verbatim>\<open>strtol\<close> stops at its end (the test
  \<^verbatim>\<open>*end == '\0'\<close> of lines 39 and 73).
\<close>

definition is_numeric :: "string \<Rightarrow> bool" where
  "is_numeric s \<longleftrightarrow> snd (strtol s) = length s"

text \<open>The gid that \<^verbatim>\<open>get_gid\<close> returns for a token, and the lookups it makes on the way.\<close>

definition gid_of :: "os \<Rightarrow> string \<Rightarrow> gid_t option" where
  "gid_of sys ref =
     (if is_numeric ref then Some (word_of_int (fst (strtol ref)))
      else map_option gr_gid (getgrnam sys ref))"

definition gid_events :: "string \<Rightarrow> event list" where
  "gid_events ref = (if is_numeric ref then [] else [Getgrnam ref])"

text \<open>All tokens that repeated calls of \<^verbatim>\<open>strtok(..., ",")\<close> deliver, in order.\<close>

function strtok_all :: "string \<Rightarrow> string list" where
  "strtok_all s =
     (case strtok s '','' of
        (None, save) \<Rightarrow> []
      | (Some token, save) \<Rightarrow> token # strtok_all save)"
  by pat_completeness auto
termination
  by (relation "measure length") (auto dest: strtok_save_shorter [OF sym])

declare strtok_all.simps [simp del]

fun pending :: "string option \<Rightarrow> string \<Rightarrow> string list" where
  "pending None save = []"
| "pending (Some token) save = token # strtok_all save"

text \<open>
  The buffer handed to \<^verbatim>\<open>setgroups\<close> for a group part: one slot per comma plus one, the
  gids of the tokens from the front, the remaining slots never written.
\<close>

definition explicit_gidlist :: "os \<Rightarrow> string \<Rightarrow> gidbuf" where
  "explicit_gidlist sys g =
     map (gid_of sys) (strtok_all g)
       @ replicate (nat (str_occurrences g CHR '','' + 1) - length (strtok_all g)) None"

text \<open>
  The fields of a group part: the pieces between its commas, empty ones included. There is
  one more field than there are commas.
\<close>

fun fields :: "string \<Rightarrow> string list" where
  "fields [] = [[]]"
| "fields (c # cs) =
     (if c = CHR '','' then [] # fields cs else (c # hd (fields cs)) # tl (fields cs))"

text \<open>The record \<^verbatim>\<open>pw\<close> after line 85, the lookups made for it, and \<^verbatim>\<open>uid\<close>, \<^verbatim>\<open>gid\<close> after line 90.\<close>

definition resolved_record :: "os \<Rightarrow> string \<Rightarrow> passwd option" where
  "resolved_record sys user =
     (if user = [] then getpwuid sys (getuid sys)
      else if is_numeric user then getpwuid sys (word_of_int (fst (strtol user)))
      else getpwnam sys user)"

definition user_events :: "os \<Rightarrow> string \<Rightarrow> event list" where
  "user_events sys user =
     (if user = [] then [Getpwuid (getuid sys)]
      else if is_numeric user then [Getpwuid (word_of_int (fst (strtol user)))]
      else [Getpwnam user])"

definition uid_of :: "os \<Rightarrow> string \<Rightarrow> uid_t" where
  "uid_of sys user =
     (case resolved_record sys user of
        Some e \<Rightarrow> pw_uid e
      | None \<Rightarrow> if user = [] then getuid sys else word_of_int (fst (strtol user)))"

definition default_gid :: "os \<Rightarrow> string \<Rightarrow> gid_t" where
  "default_gid sys user =
     (case resolved_record sys user of Some e \<Rightarrow> pw_gid e | None \<Rightarrow> getgid sys)"

definition home_of :: "passwd option \<Rightarrow> string" where
  "home_of pw = (case pw of Some e \<Rightarrow> pw_dir e | None \<Rightarrow> ''/'')"

fun is_identity_change :: "event \<Rightarrow> bool" where
  "is_identity_change (Setgroups gl) = True"
| "is_identity_change (Setgid g) = True"
| "is_identity_change (Setuid u) = True"
| "is_identity_change e = False"

fun is_setenv :: "event \<Rightarrow> bool" where
  "is_setenv (Setenv n v) = True"
| "is_setenv e = False"

fun is_getgrouplist :: "event \<Rightarrow> bool" where
  "is_getgrouplist (Getgrouplist n g k) = True"
| "is_getgrouplist e = False"

text \<open>
  A run has reached process replacement when \<^verbatim>\<open>execvp\<close> was called: the call succeeded, or
  it failed and \<^verbatim>\<open>err\<close> reported the command.
\<close>

fun execvp_called :: "outcome \<Rightarrow> bool" where
  "execvp_called (Exec c) = True"
| "execvp_called (Err (Err_exec c)) = True"
| "execvp_called oc = False"

text \<open>
  The contract of \<^verbatim>\<open>getgrouplist\<close> (its manual page): with room for all groups of the
  user it stores them and returns their number; otherwise it returns -1, having stored what
  fits; in both cases \<^verbatim>\<open>ngroups\<close> becomes the number of groups.
\<close>

definition posix_getgrouplist :: "gid_t list \<Rightarrow> int \<Rightarrow> int \<times> int \<times> gid_t list" where
  "posix_getgrouplist members n =
     (let k = int (length members)
      in if k \<le> n then (k, k, members) else (- 1, k, take (nat n) members))"

definition follows_contract :: "os \<Rightarrow> string \<Rightarrow> gid_t \<Rightarrow> gid_t list \<Rightarrow> bool" where
  "follows_contract sys name gid members \<longleftrightarrow>
     (\<forall>n. getgrouplist_resp sys name gid n = posix_getgrouplist members n)"

text \<open>The process at the end of a block, however the block ended.\<close>

fun res_proc :: "(outcome \<times> proc) + ('a \<times> proc) \<Rightarrow> proc" where
  "res_proc (Inl (oc, p)) = p"
| "res_proc (Inr (v, p)) = p"

subsection \<open>Example systems\<close>

definition root_pw :: passwd where
  "root_pw = \<lparr>pw_name = ''root'', pw_uid = 0, pw_gid = 0, pw_dir = ''/root''\<rparr>"

definition alice_pw :: passwd where
  "alice_pw = \<lparr>pw_name = ''alice'', pw_uid = 1000, pw_gid = 1000, pw_dir = ''/home/alice''\<rparr>"

definition demo_members :: "string \<Rightarrow> gid_t \<Rightarrow> gid_t list" where
  "demo_members name gid = gid # (if name = ''alice'' then [50] else [])"

text \<open>A root caller on a system with two users, where every call is granted.\<close>

definition demo_os :: os where
  "demo_os =
     \<lparr>getuid = 0, getgid = 0, passwd_db = [root_pw, alice_pw],
      group_db = [\<lparr>gr_name = ''root'', gr_gid = 0\<rparr>, \<lparr>gr_name = ''staff'', gr_gid = 50\<rparr>],
      getgrouplist_resp = (\<lambda>name gid. posix_getgrouplist (demo_members name gid)),
      malloc_ok = (\<lambda>n. True), realloc_ok = (\<lambda>n. True), setgroups_ok = (\<lambda>gl. True),
      setgid_ok = (\<lambda>g. True), setuid_ok = (\<lambda>u. True), execvp_ok = (\<lambda>c. True)\<rparr>"

text \<open>The same system for a caller with uid 0 whose current gid is 5.\<close>

definition gid5_os :: os where
  "gid5_os = demo_os\<lparr>getgid := 5\<rparr>"

text \<open>The same system with a \<^verbatim>\<open>getgrouplist\<close> that reports too small a buffer every time.\<close>

definition stuck_os :: os where
  "stuck_os = demo_os\<lparr>getgrouplist_resp := (\<lambda>name gid n. (- 1, 1, []))\<rparr>"

definition proc0 :: proc where
  "proc0 =
     \<lparr>p_env = [(''PATH'', ''/bin''), (''HOME'', ''/root'')], p_groups = [Some 0],
      p_stdout = [], p_trace = []\<rparr>"

section \<open>Properties\<close>

subsection \<open>What each block does to the process\<close>

lemma log_event_fields [simp]:
  "p_env (log_event e p) = p_env p"
  "p_groups (log_event e p) = p_groups p"
  "p_stdout (log_event e p) = p_stdout p"
  "p_trace (log_event e p) = p_trace p @ [e]"
  by (simp_all add: log_event_def)

lemma get_gid_Inr:
  assumes "get_gid sys p ref = Inr (g, p1)"
  shows "gid_of sys ref = Some g" and "p_trace p1 = p_trace p @ gid_events ref"
    and "p_env p1 = p_env p" and "p_groups p1 = p_groups p" and "p_stdout p1 = p_stdout p"
  using assms
  by (auto simp: get_gid_def gid_of_def gid_events_def is_numeric_def Let_def
      split: prod.splits option.splits if_splits)

lemma pending_strtok:
  "strtok save '','' = (token1, save1) \<Longrightarrow> strtok_all save = pending token1 save1"
  by (cases token1) (simp_all add: strtok_all.simps [of save])

lemma gidlist_loop_Inr:
  "gidlist_loop sys p token save i gl = Inr (gl1, p1) \<Longrightarrow>
     (\<forall>t \<in> set (pending token save). gid_of sys t \<noteq> None) \<and>
     gl1 = take (Suc i) gl @ map (gid_of sys) (pending token save)
             @ drop (Suc i + length (pending token save)) gl \<and>
     (pending token save \<noteq> [] \<longrightarrow> i + length (pending token save) < length gl) \<and>
     p_trace p1 = p_trace p @ concat (map gid_events (pending token save)) \<and>
     p_env p1 = p_env p \<and> p_groups p1 = p_groups p \<and> p_stdout p1 = p_stdout p"
proof (induction sys p token save i gl arbitrary: gl1 p1 rule: gidlist_loop.induct)
  case (1 sys p save i gidlist)
  then show ?case by simp
next
  case (2 sys p token save i gidlist)
  from "2.prems" obtain g pa where gg: "get_gid sys p token = Inr (g, pa)"
    by (auto split: sum.splits)
  from "2.prems" gg have lt: "Suc i < length gidlist"
    by (auto split: if_splits)
  obtain token1 save1 where st: "strtok save '','' = (token1, save1)"
    by (cases "strtok save '',''") auto
  from "2.prems" gg lt st
  have rec: "gidlist_loop sys pa token1 save1 (i + 1) (gidlist[i + 1 := Some g]) = Inr (gl1, p1)"
    by simp
  from lt have lt1: "i + 1 < length gidlist" by simp
  note ih = "2.IH"[OF refl gg refl lt1 st[symmetric] rec, simplified]
  note g = get_gid_Inr[OF gg]
  have pd: "pending (Some token) save = token # pending token1 save1"
    using pending_strtok[OF st] by simp
  have upd: "take (Suc (Suc i)) (gidlist[Suc i := Some g]) = take (Suc i) gidlist @ [Some g]"
    using lt by (simp add: take_Suc_conv_app_nth[of "Suc i"])
  show ?case
    unfolding pd using ih g lt upd
    by (auto simp: drop_update_cancel)
qed


lemma str_occurrences_loop_eq:
  "str_occurrences_loop s c n = n + int (length (filter (\<lambda>x. x = c) s))"
  by (induction s arbitrary: n) auto

lemma str_occurrences_eq: "str_occurrences s c = int (length (filter (\<lambda>x. x = c) s))"
  by (simp add: str_occurrences_def str_occurrences_loop_eq)

lemma str_occurrences_zero: "str_occurrences s c = 0 \<longleftrightarrow> c \<notin> set s"
  by (auto simp: str_occurrences_eq filter_empty_conv)

lemma dropWhile_neq_absent: "c \<notin> set xs \<Longrightarrow> dropWhile (\<lambda>x. x \<noteq> c) xs = []"
  by (induction xs) auto

lemma takeWhile_neq_absent: "c \<notin> set xs \<Longrightarrow> takeWhile (\<lambda>x. x \<noteq> c) xs = xs"
  by (induction xs) auto

lemma strtok_no_delim:
  "CHR '','' \<notin> set s \<Longrightarrow> s \<noteq> [] \<Longrightarrow> strtok s '','' = (Some s, [])"
  by (cases s) (auto simp: strtok_def Let_def dropWhile_neq_absent takeWhile_neq_absent)

lemma strtok_all_Nil: "strtok_all [] = []"
  by (simp add: strtok_all.simps [of "[]"] strtok_def)

lemma strtok_all_single: "CHR '','' \<notin> set s \<Longrightarrow> s \<noteq> [] \<Longrightarrow> strtok_all s = [s]"
  using strtok_no_delim [of s] strtok_all_Nil by (subst strtok_all.simps) simp

lemma setgroups_fields:
  "setgroups sys gl p = (True, p1) \<Longrightarrow>
     p_trace p1 = p_trace p @ [Setgroups gl] \<and> p_groups p1 = gl \<and>
     p_env p1 = p_env p \<and> p_stdout p1 = p_stdout p"
  by (auto simp: setgroups_def Let_def split: if_splits)

lemma set_explicit_groups_Inr:
  assumes run: "set_explicit_groups sys p g = Inr (gid1, p1)" and ne: "g \<noteq> []"
  shows "strtok_all g \<noteq> [] \<and> gid_of sys (hd (strtok_all g)) = Some gid1 \<and>
         (\<forall>t \<in> set (strtok_all g). gid_of sys t \<noteq> None) \<and>
         p_trace p1 = p_trace p @ concat (map gid_events (strtok_all g))
                        @ [Setgroups (explicit_gidlist sys g)] \<and>
         p_groups p1 = explicit_gidlist sys g \<and>
         p_env p1 = p_env p \<and> p_stdout p1 = p_stdout p"
proof (cases "str_occurrences g CHR '','' = 0")
  case True
  then have nc: "CHR '','' \<notin> set g" by (simp add: str_occurrences_zero)
  have toks: "strtok_all g = [g]" using nc ne by (rule strtok_all_single)
  from run True obtain pa where gg: "get_gid sys p g = Inr (gid1, pa)"
    by (auto simp: set_explicit_groups_def split: sum.splits prod.splits if_splits)
  from run True gg have sg: "setgroups sys [Some gid1] pa = (True, p1)"
    by (auto simp: set_explicit_groups_def split: prod.splits if_splits)
  have eg: "explicit_gidlist sys g = [Some gid1]"
    using True toks get_gid_Inr(1)[OF gg] by (simp add: explicit_gidlist_def)
  show ?thesis
    using get_gid_Inr[OF gg] setgroups_fields[OF sg] toks eg by simp
next
  case False
  define cnt where "cnt = nat (str_occurrences g CHR '','' + 1)"
  have occ: "0 \<le> str_occurrences g CHR '',''" by (simp add: str_occurrences_eq)
  with False have cnt2: "2 \<le> cnt" by (simp add: cnt_def)
  have cnt1: "str_occurrences g CHR '','' + 1 \<noteq> 1" using False by simp
  obtain tk save where st: "strtok g '','' = (tk, save)" by (cases "strtok g '',''") auto
  from run cnt1 st obtain token where tk: "tk = Some token"
    by (cases tk) (auto simp: set_explicit_groups_def Let_def)
  note st = st[unfolded tk]
  from run cnt1 st obtain pa where gg: "get_gid sys p token = Inr (gid1, pa)"
    by (auto simp: set_explicit_groups_def Let_def split: sum.splits option.splits prod.splits if_splits)
  obtain token1 save1 where st1: "strtok save '','' = (token1, save1)"
    by (cases "strtok save '',''") auto
  from run cnt1 st gg st1 obtain gl1 pb where
    lp: "gidlist_loop sys pa token1 save1 0 ((replicate cnt None)[0 := Some gid1]) = Inr (gl1, pb)"
    and sg: "setgroups sys (take cnt gl1) pb = (True, p1)"
    by (auto simp: set_explicit_groups_def Let_def cnt_def
        split: sum.splits option.splits prod.splits if_splits)
  let ?ts = "pending token1 save1"
  have toks: "strtok_all g = token # ?ts"
    using st pending_strtok[OF st1] by (subst strtok_all.simps) simp
  note l = gidlist_loop_Inr[OF lp]
  have len: "Suc (length ?ts) \<le> cnt"
    using l cnt2 by (cases "?ts = []") auto
  have rep: "(replicate cnt None)[0 := Some gid1] = Some gid1 # replicate (cnt - 1) (None :: gid_t option)"
    using cnt2 by (cases cnt) auto
  have gl1: "gl1 = Some gid1 # map (gid_of sys) ?ts @ replicate (cnt - Suc (length ?ts)) None"
    using l len unfolding rep by simp
  have tk1: "take cnt gl1 = gl1" using len unfolding gl1 by simp
  have eg: "explicit_gidlist sys g = gl1"
    unfolding gl1 explicit_gidlist_def toks cnt_def [symmetric]
    using get_gid_Inr(1)[OF gg] by simp
  have sgf: "p_trace p1 = p_trace pb @ [Setgroups gl1]" "p_groups p1 = gl1"
    "p_env p1 = p_env pb" "p_stdout p1 = p_stdout pb"
    using setgroups_fields[OF sg] unfolding tk1 by simp_all
  have lf: "p_trace pb = p_trace pa @ concat (map gid_events ?ts)"
    "p_env pb = p_env pa" "p_stdout pb = p_stdout pa" "\<forall>t \<in> set ?ts. gid_of sys t \<noteq> None"
    using l by simp_all
  show ?thesis
    unfolding toks eg using sgf lf get_gid_Inr[OF gg] by simp
qed


lemma resolve_user_Inr:
  assumes "resolve_user sys p user = Inr ((uid, gid, pw), p1)"
  shows "pw = resolved_record sys user"
    and "p_trace p1 = p_trace p @ user_events sys user"
    and "p_env p1 = p_env p" and "p_groups p1 = p_groups p" and "p_stdout p1 = p_stdout p"
    and "uid = (case pw of Some e \<Rightarrow> pw_uid e
                | None \<Rightarrow> if user = [] then getuid sys else word_of_int (fst (strtol user)))"
    and "gid = (case pw of Some e \<Rightarrow> pw_gid e | None \<Rightarrow> getgid sys)"
    and "pw = None \<Longrightarrow> user = [] \<or> is_numeric user"
  using assms
  by (auto simp: resolve_user_def resolved_record_def user_events_def is_numeric_def Let_def
      split: prod.splits option.splits if_splits sum.splits)

lemma explicit_groups_absent:
  assumes "explicit_groups sys p gp gid pw = Inr ((gid1, pw1), p1)"
    and "gp = None \<or> gp = Some []"
  shows "gid1 = gid" and "pw1 = pw" and "p1 = p"
  using assms by (auto simp: explicit_groups_def)

lemma explicit_groups_given:
  assumes "explicit_groups sys p (Some g) gid pw = Inr ((gid1, pw1), p1)" and "g \<noteq> []"
  shows "pw1 = None" and "set_explicit_groups sys p g = Inr (gid1, p1)"
  using assms by (auto simp: explicit_groups_def split: sum.splits)

lemmas getgrouplist_loop_induct =
  getgrouplist_loop.raw_induct [rotated, consumes 1, case_names step]

lemma getgrouplist_loop_Inr:
  assumes "getgrouplist_loop sys name gid p ngroups glist = Some r"
  shows "\<forall>p1. r = Inr p1 \<longrightarrow>
     (\<exists>ns gl. p_trace p1 = p_trace p @ map (Getgrouplist name gid) ns @ [Setgroups gl] \<and>
       p_groups p1 = gl \<and> p_env p1 = p_env p \<and> p_stdout p1 = p_stdout p)"
  using assms
proof (induction rule: getgrouplist_loop_induct)
  case (step loop sys name gid p ngroups glist r)
  note ih = step(1) and body = step(2)
  obtain rv ngroups1 stored where resp: "getgrouplist_resp sys name gid ngroups = (rv, ngroups1, stored)"
    by (cases "getgrouplist_resp sys name gid ngroups") auto
  let ?pa = "log_event (Getgrouplist name gid ngroups) p"
  let ?gl = "store_gids glist ngroups stored"
  show ?case
  proof (intro allI impI)
    fix p1 assume r: "r = Inr p1"
    show "\<exists>ns gl. p_trace p1 = p_trace p @ map (Getgrouplist name gid) ns @ [Setgroups gl] \<and>
       p_groups p1 = gl \<and> p_env p1 = p_env p \<and> p_stdout p1 = p_stdout p"
    proof (cases "0 \<le> rv")
      case True
      with body r resp
      have sg: "setgroups sys (take (nat ngroups1) ?gl) ?pa = (True, p1)"
        by (auto simp: Let_def split: if_splits prod.splits)
      from setgroups_fields[OF sg] show ?thesis
        by (intro exI[of _ "[ngroups]"] exI[of _ "take (nat ngroups1) ?gl"]) simp
    next
      case False
      with body r resp obtain glist2 where
        rec: "loop sys name gid ?pa ngroups1 glist2 = Some r"
        by (auto simp: Let_def split: if_splits option.splits)
      from ih[OF rec] r obtain ns gl where
        "p_trace p1 = p_trace ?pa @ map (Getgrouplist name gid) ns @ [Setgroups gl]"
        "p_groups p1 = gl" "p_env p1 = p_env ?pa" "p_stdout p1 = p_stdout ?pa"
        by blast
      then show ?thesis
        by (intro exI[of _ "ngroups # ns"] exI[of _ gl]) simp
    qed
  qed
qed

lemma getgrouplist_loop_Inl:
  assumes "getgrouplist_loop sys name gid p ngroups glist = Some r"
  shows "\<forall>oc p1. r = Inl (oc, p1) \<longrightarrow>
           oc = Undefined \<or> oc = Err Err_setgroups \<or> oc = Err Err_malloc"
  using assms
proof (induction rule: getgrouplist_loop_induct)
  case (step loop sys name gid p ngroups glist r)
  note ih = step(1) and body = step(2)
  obtain rv ngroups1 stored where resp: "getgrouplist_resp sys name gid ngroups = (rv, ngroups1, stored)"
    by (cases "getgrouplist_resp sys name gid ngroups") auto
  show ?case
  proof (cases "0 \<le> rv
      \<or> realloc sys (store_gids glist ngroups stored) (realloc_size ngroups1) = None")
    case True
    with body resp show ?thesis
      by (auto simp: Let_def split: prod.splits if_splits)
  next
    case False
    with body resp obtain glist2 where
      "loop sys name gid (log_event (Getgrouplist name gid ngroups) p) ngroups1 glist2 = Some r"
      by (auto simp: Let_def)
    then show ?thesis by (rule ih)
  qed
qed

lemma getgrouplist_loop_no_Exec:
  "getgrouplist_loop sys name gid p ngroups glist = Some (Inl (oc, p1)) \<Longrightarrow> \<not> execvp_called oc"
  using getgrouplist_loop_Inl by fastforce

lemma get_gid_no_Exec: "get_gid sys p ref = Inl (oc, p1) \<Longrightarrow> \<not> execvp_called oc"
  by (auto simp: get_gid_def Let_def split: prod.splits option.splits if_splits)

lemma gidlist_loop_no_Exec:
  "gidlist_loop sys p token save i gl = Inl (oc, p1) \<Longrightarrow> \<not> execvp_called oc"
proof (induction sys p token save i gl rule: gidlist_loop.induct)
  case (1 sys p save i gidlist)
  then show ?case by simp
next
  case (2 sys p token save i gidlist)
  show ?case
  proof (cases "get_gid sys p token")
    case (Inl t)
    with "2.prems" have "get_gid sys p token = Inl (oc, p1)" by simp
    then show ?thesis by (rule get_gid_no_Exec)
  next
    case (Inr b)
    obtain g pa where b: "b = (g, pa)" by (cases b)
    obtain token1 save1 where st: "strtok save '','' = (token1, save1)"
      by (cases "strtok save '',''") auto
    show ?thesis
    proof (cases "i + 1 < length gidlist")
      case True
      with "2.prems" Inr b st
      have "gidlist_loop sys pa token1 save1 (i + 1) (gidlist[i + 1 := Some g]) = Inl (oc, p1)"
        by simp
      from "2.IH"[OF refl Inr b[symmetric] True st[symmetric] this] show ?thesis .
    next
      case False
      with "2.prems" Inr b show ?thesis by auto
    qed
  qed
qed

lemma set_explicit_groups_no_Exec:
  "set_explicit_groups sys p g = Inl (oc, p1) \<Longrightarrow> \<not> execvp_called oc"
  by (auto simp: set_explicit_groups_def Let_def
      split: sum.splits prod.splits option.splits if_splits
      dest: get_gid_no_Exec gidlist_loop_no_Exec)

lemma explicit_groups_no_Exec:
  "explicit_groups sys p gp gid pw = Inl (oc, p1) \<Longrightarrow> \<not> execvp_called oc"
  by (auto simp: explicit_groups_def split: sum.splits option.splits if_splits
      dest: set_explicit_groups_no_Exec)

lemma resolve_user_no_Exec: "resolve_user sys p user = Inl (oc, p1) \<Longrightarrow> \<not> execvp_called oc"
  by (auto simp: resolve_user_def Let_def split: sum.splits prod.splits option.splits if_splits)

lemma passwd_groups_no_Exec:
  "passwd_groups sys p pw gid = Some (Inl (oc, p1)) \<Longrightarrow> \<not> execvp_called oc"
  by (auto simp: passwd_groups_def split: option.splits dest: getgrouplist_loop_no_Exec)

lemma passwd_groups_None:
  "passwd_groups sys p None gid = Some (Inr p)"
  by (simp add: passwd_groups_def)

lemma passwd_groups_Some:
  "passwd_groups sys p (Some e) gid = getgrouplist_loop sys (pw_name e) gid p 0 []"
  by (simp add: passwd_groups_def)

lemma drop_and_exec_Exec:
  assumes "drop_and_exec sys p gid uid cmdargv = (oc, p1)" and "execvp_called oc"
  shows "oc = Exec cmdargv \<or> (\<exists>c. oc = Err (Err_exec c))"
    and "p_trace p1 = p_trace p @ [Setgid gid, Setuid uid, Execvp cmdargv]"
    and "p_env p1 = p_env p" and "p_groups p1 = p_groups p" and "p_stdout p1 = p_stdout p"
  using assms
  by (auto simp: drop_and_exec_def setgid_def setuid_def Let_def split: if_splits list.splits)

lemma setenv_fields [simp]:
  "p_trace (setenv n v p) = p_trace p @ [Setenv n v]"
  "p_env (setenv n v p) = AList.update n v (p_env p)"
  "p_groups (setenv n v p) = p_groups p"
  "p_stdout (setenv n v p) = p_stdout p"
  by (simp_all add: setenv_def)

lemma main_Exec:
  assumes "main sys p argv = Some (oc, p')" and "execvp_called oc"
  obtains user gp uid gid pw p1 gid1 pw1 p3 p4 where
    "3 \<le> length argv" "split_user_spec (argv ! 1) = (user, gp)"
    "resolve_user sys p user = Inr ((uid, gid, pw), p1)"
    "explicit_groups sys (setenv ''HOME'' (home_of pw) p1) gp gid pw = Inr ((gid1, pw1), p3)"
    "passwd_groups sys p3 pw1 gid1 = Some (Inr p4)"
    "drop_and_exec sys p4 gid1 uid (drop 2 argv) = (oc, p')"
  using assms
  by (auto simp: main_def Let_def usage_def home_of_def
      split: if_splits prod.splits sum.splits option.splits
      dest: resolve_user_no_Exec explicit_groups_no_Exec passwd_groups_no_Exec)

subsection \<open>Runs of \<^verbatim>\<open>main\<close> that reach \<^verbatim>\<open>execvp\<close>\<close>

lemma uid_of_resolve:
  assumes "resolve_user sys p user = Inr ((uid, gid, pw), p1)"
  shows "uid = uid_of sys user" and "gid = default_gid sys user"
  using resolve_user_Inr(1,6,7)[OF assms]
  by (simp_all add: uid_of_def default_gid_def)

lemma main_Exec_fields:
  assumes run: "main sys p argv = Some (oc, p')" and called: "execvp_called oc"
    and sp: "split_user_spec (argv ! 1) = (user, gp)"
  shows "oc = Exec (drop 2 argv) \<or> (\<exists>c. oc = Err (Err_exec c))" and "3 \<le> length argv"
    and "p_env p' = AList.update ''HOME'' (home_of (resolved_record sys user)) (p_env p)"
    and "p_stdout p' = p_stdout p"
proof -
  from run called obtain user' gp' uid gid pw p1 gid1 pw1 p3 p4 where b:
    "3 \<le> length argv" "split_user_spec (argv ! 1) = (user', gp')"
    "resolve_user sys p user' = Inr ((uid, gid, pw), p1)"
    "explicit_groups sys (setenv ''HOME'' (home_of pw) p1) gp' gid pw = Inr ((gid1, pw1), p3)"
    "passwd_groups sys p3 pw1 gid1 = Some (Inr p4)"
    "drop_and_exec sys p4 gid1 uid (drop 2 argv) = (oc, p')"
    by (rule main_Exec)
  from b(2) sp have eq: "user' = user" "gp' = gp" by simp_all
  note r = resolve_user_Inr[OF b(3)[unfolded eq]]
  note d = drop_and_exec_Exec[OF b(6) called]
  let ?p2 = "setenv ''HOME'' (home_of pw) p1"
  have e3: "p_env p3 = p_env ?p2 \<and> p_stdout p3 = p_stdout ?p2"
  proof (cases "gp = None \<or> gp = Some []")
    case True
    from explicit_groups_absent(3)[OF b(4)[unfolded eq] True] show ?thesis by simp
  next
    case False
    then obtain g where g: "gp = Some g" "g \<noteq> []" by (cases gp) auto
    from explicit_groups_given(2)[OF b(4)[unfolded eq g(1)] g(2)]
    have "set_explicit_groups sys ?p2 g = Inr (gid1, p3)" .
    from set_explicit_groups_Inr[OF this g(2)] show ?thesis by simp
  qed
  have e4: "p_env p4 = p_env p3 \<and> p_stdout p4 = p_stdout p3"
  proof (cases pw1)
    case None
    with b(5) show ?thesis by (simp add: passwd_groups_None)
  next
    case (Some e)
    with b(5) have "getgrouplist_loop sys (pw_name e) gid1 p3 0 [] = Some (Inr p4)"
      by (simp add: passwd_groups_Some)
    from getgrouplist_loop_Inr[OF this, rule_format, OF refl] show ?thesis by auto
  qed
  show "oc = Exec (drop 2 argv) \<or> (\<exists>c. oc = Err (Err_exec c))" using d(1) .
  show "3 \<le> length argv" using b(1) .
  show "p_env p' = AList.update ''HOME'' (home_of (resolved_record sys user)) (p_env p)"
    using d(3) e4 e3 r(1,3) by simp
  show "p_stdout p' = p_stdout p"
    using d(5) e4 e3 r(5) by simp
qed

lemma main_Exec_explicit:
  assumes run: "main sys p argv = Some (oc, p')" and called: "execvp_called oc"
    and sp: "split_user_spec (argv ! 1) = (user, Some g)" and ne: "g \<noteq> []"
  shows "\<exists>gid1. gid_of sys (hd (strtok_all g)) = Some gid1 \<and>
           p_trace p' = p_trace p @ user_events sys user
             @ [Setenv ''HOME'' (home_of (resolved_record sys user))]
             @ concat (map gid_events (strtok_all g))
             @ [Setgroups (explicit_gidlist sys g), Setgid gid1, Setuid (uid_of sys user),
                Execvp (drop 2 argv)]"
    and "p_groups p' = explicit_gidlist sys g"
    and "strtok_all g \<noteq> []" and "\<forall>t \<in> set (strtok_all g). gid_of sys t \<noteq> None"
proof -
  from run called obtain user' gp' uid gid pw p1 gid1 pw1 p3 p4 where b:
    "3 \<le> length argv" "split_user_spec (argv ! 1) = (user', gp')"
    "resolve_user sys p user' = Inr ((uid, gid, pw), p1)"
    "explicit_groups sys (setenv ''HOME'' (home_of pw) p1) gp' gid pw = Inr ((gid1, pw1), p3)"
    "passwd_groups sys p3 pw1 gid1 = Some (Inr p4)"
    "drop_and_exec sys p4 gid1 uid (drop 2 argv) = (oc, p')"
    by (rule main_Exec)
  from b(2) sp have eq: "user' = user" "gp' = Some g" by simp_all
  note r = resolve_user_Inr[OF b(3)[unfolded eq]]
  note u = uid_of_resolve[OF b(3)[unfolded eq]]
  note d = drop_and_exec_Exec[OF b(6) called]
  let ?p2 = "setenv ''HOME'' (home_of pw) p1"
  note x = explicit_groups_given[OF b(4)[unfolded eq] ne]
  note s = set_explicit_groups_Inr[OF x(2) ne]
  from b(5) x(1) have p4: "p4 = p3" by (simp add: passwd_groups_None)
  have tr: "p_trace p' = p_trace p @ user_events sys user
             @ [Setenv ''HOME'' (home_of (resolved_record sys user))]
             @ concat (map gid_events (strtok_all g))
             @ [Setgroups (explicit_gidlist sys g), Setgid gid1, Setuid (uid_of sys user),
                Execvp (drop 2 argv)]"
    using d(2) p4 s r(1,2) u(1) by simp
  from s tr show "\<exists>gid1. gid_of sys (hd (strtok_all g)) = Some gid1 \<and>
           p_trace p' = p_trace p @ user_events sys user
             @ [Setenv ''HOME'' (home_of (resolved_record sys user))]
             @ concat (map gid_events (strtok_all g))
             @ [Setgroups (explicit_gidlist sys g), Setgid gid1, Setuid (uid_of sys user),
                Execvp (drop 2 argv)]"
    by blast
  show "p_groups p' = explicit_gidlist sys g" using d(4) p4 s by simp
  show "strtok_all g \<noteq> []" using s by simp
  show "\<forall>t \<in> set (strtok_all g). gid_of sys t \<noteq> None" using s by simp
qed

lemma main_Exec_inherit:
  assumes run: "main sys p argv = Some (oc, p')" and called: "execvp_called oc"
    and sp: "split_user_spec (argv ! 1) = (user, gp)" and ab: "gp = None \<or> gp = Some []"
    and norec: "resolved_record sys user = None"
  shows "p_trace p' = p_trace p @ user_events sys user
           @ [Setenv ''HOME'' ''/'', Setgid (getgid sys), Setuid (uid_of sys user), Execvp (drop 2 argv)]"
    and "p_groups p' = p_groups p"
proof -
  from run called obtain user' gp' uid gid pw p1 gid1 pw1 p3 p4 where b:
    "3 \<le> length argv" "split_user_spec (argv ! 1) = (user', gp')"
    "resolve_user sys p user' = Inr ((uid, gid, pw), p1)"
    "explicit_groups sys (setenv ''HOME'' (home_of pw) p1) gp' gid pw = Inr ((gid1, pw1), p3)"
    "passwd_groups sys p3 pw1 gid1 = Some (Inr p4)"
    "drop_and_exec sys p4 gid1 uid (drop 2 argv) = (oc, p')"
    by (rule main_Exec)
  from b(2) sp have eq: "user' = user" "gp' = gp" by simp_all
  note r = resolve_user_Inr[OF b(3)[unfolded eq]]
  note u = uid_of_resolve[OF b(3)[unfolded eq]]
  note d = drop_and_exec_Exec[OF b(6) called]
  note x = explicit_groups_absent[OF b(4)[unfolded eq] ab]
  from r(1) norec have pw: "pw = None" by simp
  from b(5) x(2) pw have p4: "p4 = p3" by (simp add: passwd_groups_None)
  have g: "gid1 = getgid sys" using x(1) r(7) pw by simp
  show "p_trace p' = p_trace p @ user_events sys user
           @ [Setenv ''HOME'' ''/'', Setgid (getgid sys), Setuid (uid_of sys user), Execvp (drop 2 argv)]"
    using d(2) p4 x(3) r(2) u(1) pw g by (simp add: home_of_def)
  show "p_groups p' = p_groups p"
    using d(4) p4 x(3) r(4) by simp
qed

lemma main_Exec_derived:
  assumes run: "main sys p argv = Some (oc, p')" and called: "execvp_called oc"
    and sp: "split_user_spec (argv ! 1) = (user, gp)" and ab: "gp = None \<or> gp = Some []"
    and rec: "resolved_record sys user = Some e"
  shows "\<exists>ns gl. p_trace p' = p_trace p @ user_events sys user
           @ [Setenv ''HOME'' (pw_dir e)] @ map (Getgrouplist (pw_name e) (pw_gid e)) ns
           @ [Setgroups gl, Setgid (pw_gid e), Setuid (pw_uid e), Execvp (drop 2 argv)] \<and>
           p_groups p' = gl"
proof -
  from run called obtain user' gp' uid gid pw p1 gid1 pw1 p3 p4 where b:
    "3 \<le> length argv" "split_user_spec (argv ! 1) = (user', gp')"
    "resolve_user sys p user' = Inr ((uid, gid, pw), p1)"
    "explicit_groups sys (setenv ''HOME'' (home_of pw) p1) gp' gid pw = Inr ((gid1, pw1), p3)"
    "passwd_groups sys p3 pw1 gid1 = Some (Inr p4)"
    "drop_and_exec sys p4 gid1 uid (drop 2 argv) = (oc, p')"
    by (rule main_Exec)
  from b(2) sp have eq: "user' = user" "gp' = gp" by simp_all
  note r = resolve_user_Inr[OF b(3)[unfolded eq]]
  note d = drop_and_exec_Exec[OF b(6) called]
  note x = explicit_groups_absent[OF b(4)[unfolded eq] ab]
  from r(1) rec have pw: "pw = Some e" by simp
  have ids: "gid1 = pw_gid e" "uid = pw_uid e" using x(1) r(6,7) pw by simp_all
  from b(5) x(2) pw have "getgrouplist_loop sys (pw_name e) gid1 p3 0 [] = Some (Inr p4)"
    by (simp add: passwd_groups_Some)
  from getgrouplist_loop_Inr[OF this, rule_format, OF refl] obtain ns gl where l:
    "p_trace p4 = p_trace p3 @ map (Getgrouplist (pw_name e) gid1) ns @ [Setgroups gl]"
    "p_groups p4 = gl"
    by blast
  have "p_trace p' = p_trace p @ user_events sys user
           @ [Setenv ''HOME'' (pw_dir e)] @ map (Getgrouplist (pw_name e) (pw_gid e)) ns
           @ [Setgroups gl, Setgid (pw_gid e), Setuid (pw_uid e), Execvp (drop 2 argv)]"
    using d(2) l(1) x(3) r(2) pw ids by (simp add: home_of_def)
  moreover have "p_groups p' = gl" using d(4) l(2) by simp
  ultimately show ?thesis by blast
qed

subsection \<open>Events of one kind in a trace\<close>

lemma id_change_user_events [simp]: "filter is_identity_change (user_events sys user) = []"
  by (simp add: user_events_def)

lemma id_change_gid_events [simp]:
  "filter is_identity_change (concat (map gid_events ts)) = []"
  by (induction ts) (auto simp: gid_events_def)

lemma id_change_getgrouplist [simp]:
  "filter is_identity_change (map (Getgrouplist name gid) ns) = []"
  by (induction ns) auto

lemma setenv_user_events [simp]: "filter is_setenv (user_events sys user) = []"
  by (simp add: user_events_def)

lemma setenv_gid_events [simp]: "filter is_setenv (concat (map gid_events ts)) = []"
  by (induction ts) (auto simp: gid_events_def)

lemma setenv_getgrouplist [simp]: "filter is_setenv (map (Getgrouplist name gid) ns) = []"
  by (induction ns) auto

subsection \<open>Small facts about the helpers\<close>

lemma strchr_absent: "c \<notin> set s \<Longrightarrow> strchr s c = None"
  by (induction s) auto

lemma strchr_first: "c \<notin> set u \<Longrightarrow> strchr (u @ c # g) c = Some (length u)"
  by (induction u) auto

lemma drop_and_exec_any:
  assumes "drop_and_exec sys p gid uid cmdargv = (oc, p1)"
  shows "p_groups p1 = p_groups p" and "p_env p1 = p_env p" and "p_stdout p1 = p_stdout p"
    and "\<exists>evs. p_trace p1 = p_trace p @ evs \<and>
           set evs \<subseteq> {Setgid gid, Setuid uid, Execvp cmdargv}"
  using assms
  by (auto simp: drop_and_exec_def setgid_def setuid_def Let_def split: if_splits list.splits)

lemma main_numeric_no_record:
  assumes len: "3 \<le> length argv"
    and sp: "split_user_spec (argv ! 1) = (user, gp)"
    and ne: "user \<noteq> []" and num: "is_numeric user"
    and norec: "getpwuid sys (word_of_int (fst (strtol user))) = None"
    and ab: "gp = None \<or> gp = Some []"
  shows "main sys p argv =
           Some (drop_and_exec sys
                   (setenv ''HOME'' ''/'' (log_event (Getpwuid (word_of_int (fst (strtol user)))) p))
                   (getgid sys) (word_of_int (fst (strtol user))) (drop 2 argv))"
proof -
  let ?nuid = "word_of_int (fst (strtol user)) :: uid_t"
  have r: "resolve_user sys p user = Inr ((?nuid, getgid sys, None), log_event (Getpwuid ?nuid) p)"
    using ne num norec
    by (auto simp: resolve_user_def is_numeric_def Let_def split: prod.splits)
  have x: "explicit_groups sys p2 gp (getgid sys) None = Inr ((getgid sys, None), p2)" for p2
    using ab by (auto simp: explicit_groups_def)
  show ?thesis
    using len sp r x by (simp add: main_def Let_def passwd_groups_None)
qed

lemma getpwuid_Some: "getpwuid sys uid = Some e \<Longrightarrow> pw_uid e = uid"
  by (auto simp: getpwuid_def find_Some_iff)

lemma uid_of_empty: "uid_of sys [] = getuid sys"
  by (auto simp: uid_of_def resolved_record_def getpwuid_Some split: option.splits)

subsection \<open>Runs with an explicit group part, whatever their end\<close>

lemma grouplist_user_events [simp]: "filter is_getgrouplist (user_events sys user) = []"
  by (simp add: user_events_def)

lemma grouplist_gid_events [simp]: "filter is_getgrouplist (concat (map gid_events ts)) = []"
  by (induction ts) (auto simp: gid_events_def)

lemma get_gid_trace:
  "\<exists>evs. p_trace (res_proc (get_gid sys p ref)) = p_trace p @ evs \<and>
         filter is_getgrouplist evs = []"
  by (auto simp: get_gid_def Let_def split: prod.splits option.splits)

lemma gidlist_loop_trace:
  "\<exists>evs. p_trace (res_proc (gidlist_loop sys p token save i gl)) = p_trace p @ evs \<and>
         filter is_getgrouplist evs = []"
proof (induction sys p token save i gl rule: gidlist_loop.induct)
  case (1 sys p save i gidlist)
  show ?case by simp
next
  case (2 sys p token save i gidlist)
  from get_gid_trace[of sys p token] obtain evs where
    e: "p_trace (res_proc (get_gid sys p token)) = p_trace p @ evs"
      "filter is_getgrouplist evs = []"
    by blast
  show ?case
  proof (cases "get_gid sys p token")
    case (Inl t)
    with e show ?thesis by (cases t) auto
  next
    case (Inr b)
    obtain g pa where b: "b = (g, pa)" by (cases b)
    obtain token1 save1 where st: "strtok save '','' = (token1, save1)"
      by (cases "strtok save '',''") auto
    show ?thesis
    proof (cases "i + 1 < length gidlist")
      case True
      from "2.IH"[OF refl Inr b[symmetric] True st[symmetric]] obtain evs1 where
        "p_trace (res_proc (gidlist_loop sys pa token1 save1 (i + 1) (gidlist[i + 1 := Some g])))
           = p_trace pa @ evs1" "filter is_getgrouplist evs1 = []"
        by blast
      with e Inr b True st show ?thesis
        by (intro exI[of _ "evs @ evs1"]) simp
    next
      case False
      with e Inr b show ?thesis by auto
    qed
  qed
qed


lemma setgroups_trace:
  "setgroups sys gl p = (ok, p1) \<Longrightarrow> p_trace p1 = p_trace p @ [Setgroups gl]"
  by (auto simp: setgroups_def Let_def split: if_splits)

lemma set_explicit_groups_trace:
  "\<exists>evs. p_trace (res_proc (set_explicit_groups sys p g)) = p_trace p @ evs \<and>
         filter is_getgrouplist evs = []"
proof (cases "str_occurrences g CHR '','' + 1 = 1")
  case True
  from get_gid_trace[of sys p g] obtain evs where
    e: "p_trace (res_proc (get_gid sys p g)) = p_trace p @ evs" "filter is_getgrouplist evs = []"
    by blast
  show ?thesis
  proof (cases "get_gid sys p g")
    case (Inl t)
    with e True show ?thesis by (cases t) (auto simp: set_explicit_groups_def)
  next
    case (Inr b)
    obtain gid pa where b: "b = (gid, pa)" by (cases b)
    obtain ok p2 where sg: "setgroups sys [Some gid] pa = (ok, p2)"
      by (cases "setgroups sys [Some gid] pa") auto
    from e Inr b True sg setgroups_trace[OF sg] show ?thesis
      by (intro exI[of _ "evs @ [Setgroups [Some gid]]"])
         (auto simp: set_explicit_groups_def)
  qed
next
  case False
  obtain tk save where st: "strtok g '','' = (tk, save)" by (cases "strtok g '',''") auto
  show ?thesis
  proof (cases tk)
    case None
    with False st show ?thesis by (simp add: set_explicit_groups_def Let_def)
  next
    case (Some token)
    from get_gid_trace[of sys p token] obtain evs where
      e: "p_trace (res_proc (get_gid sys p token)) = p_trace p @ evs"
        "filter is_getgrouplist evs = []"
      by blast
    show ?thesis
    proof (cases "get_gid sys p token")
      case (Inl t)
      with e False st Some show ?thesis
        by (cases t) (auto simp: set_explicit_groups_def Let_def)
    next
      case (Inr b)
      obtain gid pa where b: "b = (gid, pa)" by (cases b)
      show ?thesis
      proof (cases "malloc_ok sys (4 * nat (str_occurrences g CHR '','' + 1))")
        case nomem: False
        with e False st Some Inr b show ?thesis
          by (auto simp: set_explicit_groups_def Let_def)
      next
        case mem: True
        let ?cnt = "nat (str_occurrences g CHR '','' + 1)"
        obtain token1 save1 where st1: "strtok save '','' = (token1, save1)"
          by (cases "strtok save '',''") auto
        let ?loop = "gidlist_loop sys pa token1 save1 0 ((replicate ?cnt None)[0 := Some gid])"
        from gidlist_loop_trace[of sys pa token1 save1 0 "(replicate ?cnt None)[0 := Some gid]"]
        obtain evs1 where e1: "p_trace (res_proc ?loop) = p_trace pa @ evs1"
          "filter is_getgrouplist evs1 = []"
          by blast
        show ?thesis
        proof (cases ?loop)
          case (Inl t)
          with e e1 False st Some Inr b mem st1 show ?thesis
            by (cases t) (auto simp: set_explicit_groups_def Let_def)
        next
          case lp: (Inr c)
          obtain gl1 pb where c: "c = (gl1, pb)" by (cases c)
          obtain ok p3 where sg: "setgroups sys (take ?cnt gl1) pb = (ok, p3)"
            by (cases "setgroups sys (take ?cnt gl1) pb") auto
          from e e1 False st Some Inr b mem st1 lp c sg setgroups_trace[OF sg] show ?thesis
            by (intro exI[of _ "evs @ evs1 @ [Setgroups (take ?cnt gl1)]"])
               (auto simp: set_explicit_groups_def Let_def)
        qed
      qed
    qed
  qed
qed

lemma resolve_user_trace:
  "\<exists>evs. p_trace (res_proc (resolve_user sys p user)) = p_trace p @ evs \<and>
         filter is_getgrouplist evs = []"
  by (auto simp: resolve_user_def Let_def split: prod.splits option.splits)

lemma main_explicit_eq:
  assumes len: "3 \<le> length argv"
    and sp: "split_user_spec (argv ! 1) = (user, Some g)" and ne: "g \<noteq> []"
  shows "main sys p argv =
           (case resolve_user sys p user of
              Inl t \<Rightarrow> Some t
            | Inr ((uid, gid, pw), p1) \<Rightarrow>
                (case set_explicit_groups sys (setenv ''HOME'' (home_of pw) p1) g of
                   Inl t \<Rightarrow> Some t
                 | Inr (gid1, p3) \<Rightarrow> Some (drop_and_exec sys p3 gid1 uid (drop 2 argv))))"
  using len sp ne
  by (auto simp: main_def Let_def explicit_groups_def passwd_groups_None home_of_def
      split: sum.splits prod.splits)


lemma main_explicit_trace:
  assumes len: "3 \<le> length argv"
    and sp: "split_user_spec (argv ! 1) = (user, Some g)" and ne: "g \<noteq> []"
  shows "\<exists>oc p' evs. main sys p argv = Some (oc, p') \<and> p_trace p' = p_trace p @ evs \<and>
           filter is_getgrouplist evs = []"
proof -
  note m = main_explicit_eq[OF len sp ne, of sys p]
  from resolve_user_trace[of sys p user] obtain evs where
    e: "p_trace (res_proc (resolve_user sys p user)) = p_trace p @ evs"
      "filter is_getgrouplist evs = []"
    by blast
  show ?thesis
  proof (cases "resolve_user sys p user")
    case (Inl t)
    obtain oc p' where t: "t = (oc, p')" by (cases t)
    from m Inl t e show ?thesis by auto
  next
    case (Inr b)
    obtain uid gid pw p1 where b: "b = ((uid, gid, pw), p1)" by (cases b) auto
    let ?p2 = "setenv ''HOME'' (home_of pw) p1"
    from set_explicit_groups_trace[of sys ?p2 g] obtain evs1 where
      e1: "p_trace (res_proc (set_explicit_groups sys ?p2 g)) = p_trace ?p2 @ evs1"
        "filter is_getgrouplist evs1 = []"
      by blast
    show ?thesis
    proof (cases "set_explicit_groups sys ?p2 g")
      case (Inl t)
      obtain oc p' where t: "t = (oc, p')" by (cases t)
      from m Inr b Inl t have "main sys p argv = Some (oc, p')" by simp
      moreover from e e1 Inr b Inl t
      have "p_trace p' = p_trace p @ (evs @ [Setenv ''HOME'' (home_of pw)] @ evs1)" by simp
      moreover from e(2) e1(2)
      have "filter is_getgrouplist (evs @ [Setenv ''HOME'' (home_of pw)] @ evs1) = []" by simp
      ultimately show ?thesis by blast
    next
      case x: (Inr c)
      obtain gid1 p3 where c: "c = (gid1, p3)" by (cases c)
      obtain oc p' where d: "drop_and_exec sys p3 gid1 uid (drop 2 argv) = (oc, p')"
        by (cases "drop_and_exec sys p3 gid1 uid (drop 2 argv)") auto
      from drop_and_exec_any(4)[OF d] obtain evs2 where
        e2: "p_trace p' = p_trace p3 @ evs2"
          "set evs2 \<subseteq> {Setgid gid1, Setuid uid, Execvp (drop 2 argv)}"
        by blast
      from e2(2) have f2: "filter is_getgrouplist evs2 = []"
        by (auto simp: filter_empty_conv)
      from m Inr b x c d have "main sys p argv = Some (oc, p')" by simp
      moreover from e e1 e2(1) Inr b x c
      have "p_trace p' = p_trace p @ (evs @ [Setenv ''HOME'' (home_of pw)] @ evs1 @ evs2)"
        by simp
      moreover from e(2) e1(2) f2
      have "filter is_getgrouplist (evs @ [Setenv ''HOME'' (home_of pw)] @ evs1 @ evs2) = []"
        by simp
      ultimately show ?thesis by blast
    qed
  qed
qed

lemma explicit_gidlist_initialised:
  "\<forall>t \<in> set (strtok_all g). gid_of sys t \<noteq> None \<Longrightarrow>
     filter (\<lambda>x. x \<noteq> None) (explicit_gidlist sys g) = map (gid_of sys) (strtok_all g)"
  by (auto simp: explicit_gidlist_def filter_id_conv)

text \<open>
  With a non-empty group part a run always ends, and on none of its paths is
  \<^verbatim>\<open>getgrouplist\<close> called. When it reaches \<^verbatim>\<open>execvp\<close>, the gid given to \<^verbatim>\<open>setgid\<close> is the
  gid that the first token of the group part resolves to (a number, or a name of the group
  database: the user's record plays no part), and the entries written into the list given
  to \<^verbatim>\<open>setgroups\<close> are the gids of the tokens, in their order. The list may hold more than
  these entries.
\<close>

lemma explicit_group_part_runs:
  assumes len: "3 \<le> length argv"
    and sp: "split_user_spec (argv ! 1) = (user, Some g)" and ne: "g \<noteq> []"
  shows "\<exists>oc p' evs. main sys p argv = Some (oc, p') \<and> p_trace p' = p_trace p @ evs \<and>
           filter is_getgrouplist evs = [] \<and>
           (execvp_called oc \<longrightarrow>
              (\<exists>gid1. gid_of sys (hd (strtok_all g)) = Some gid1 \<and>
                 evs = user_events sys user
                   @ [Setenv ''HOME'' (home_of (resolved_record sys user))]
                   @ concat (map gid_events (strtok_all g))
                   @ [Setgroups (explicit_gidlist sys g), Setgid gid1,
                      Setuid (uid_of sys user), Execvp (drop 2 argv)] \<and>
                 filter (\<lambda>x. x \<noteq> None) (explicit_gidlist sys g)
                   = map (gid_of sys) (strtok_all g)))"
proof -
  from main_explicit_trace[OF len sp ne, of sys p] obtain oc p' evs where
    m: "main sys p argv = Some (oc, p')" and tr: "p_trace p' = p_trace p @ evs"
    and ng: "filter is_getgrouplist evs = []"
    by blast
  have "execvp_called oc \<longrightarrow>
          (\<exists>gid1. gid_of sys (hd (strtok_all g)) = Some gid1 \<and>
             evs = user_events sys user
               @ [Setenv ''HOME'' (home_of (resolved_record sys user))]
               @ concat (map gid_events (strtok_all g))
               @ [Setgroups (explicit_gidlist sys g), Setgid gid1,
                  Setuid (uid_of sys user), Execvp (drop 2 argv)] \<and>
             filter (\<lambda>x. x \<noteq> None) (explicit_gidlist sys g)
               = map (gid_of sys) (strtok_all g))"
  proof
    assume called: "execvp_called oc"
    note run = m
    from main_Exec_explicit(1)[OF run called sp ne] tr obtain gid1 where
      "gid_of sys (hd (strtok_all g)) = Some gid1"
      "evs = user_events sys user
               @ [Setenv ''HOME'' (home_of (resolved_record sys user))]
               @ concat (map gid_events (strtok_all g))
               @ [Setgroups (explicit_gidlist sys g), Setgid gid1,
                  Setuid (uid_of sys user), Execvp (drop 2 argv)]"
      by auto
    moreover from explicit_gidlist_initialised[OF main_Exec_explicit(4)[OF run called sp ne]]
    have "filter (\<lambda>x. x \<noteq> None) (explicit_gidlist sys g) = map (gid_of sys) (strtok_all g)" .
    ultimately show "\<exists>gid1. gid_of sys (hd (strtok_all g)) = Some gid1 \<and>
             evs = user_events sys user
               @ [Setenv ''HOME'' (home_of (resolved_record sys user))]
               @ concat (map gid_events (strtok_all g))
               @ [Setgroups (explicit_gidlist sys g), Setgid gid1,
                  Setuid (uid_of sys user), Execvp (drop 2 argv)] \<and>
             filter (\<lambda>x. x \<noteq> None) (explicit_gidlist sys g)
               = map (gid_of sys) (strtok_all g)"
      by blast
  qed
  with m tr ng show ?thesis by blast
qed

subsection \<open>The loop around \<^verbatim>\<open>getgrouplist\<close>\<close>

lemma getgrouplist_loop_never_ends:
  assumes neg: "\<forall>n. fst (getgrouplist_resp sys name gid n) < 0"
    and mem: "\<forall>m. realloc_ok sys m"
  shows "getgrouplist_loop sys name gid p n gl = None"
proof (rule ccontr)
  assume "getgrouplist_loop sys name gid p n gl \<noteq> None"
  then obtain r where "getgrouplist_loop sys name gid p n gl = Some r" by auto
  then have "\<not> ((\<forall>n. fst (getgrouplist_resp sys name gid n) < 0) \<and> (\<forall>m. realloc_ok sys m))"
  proof (induction rule: getgrouplist_loop_induct)
    case (step loop sys name gid p ngroups glist r)
    show ?case
    proof
      assume a: "(\<forall>n. fst (getgrouplist_resp sys name gid n) < 0) \<and> (\<forall>m. realloc_ok sys m)"
      obtain rv ngroups1 stored where
        resp: "getgrouplist_resp sys name gid ngroups = (rv, ngroups1, stored)"
        by (cases "getgrouplist_resp sys name gid ngroups") auto
      from a resp have "rv < 0" by (metis fst_conv)
      moreover from a obtain glist2 where
        "realloc sys (store_gids glist ngroups stored) (realloc_size ngroups1) = Some glist2"
        by (simp add: realloc_def Let_def)
      ultimately
      have "loop sys name gid (log_event (Getgrouplist name gid ngroups) p) ngroups1 glist2
              = Some r"
        using step(2) resp by (simp add: Let_def)
      from step(1)[OF this] a show False by simp
    qed
  qed
  with neg mem show False by simp
qed

lemma length_realloc: "realloc sys glist nbytes = Some glist2 \<Longrightarrow> length glist2 = nbytes div 4"
  by (auto simp: realloc_def Let_def split: if_splits)

lemma realloc_size_count: "n < 2 ^ 31 \<Longrightarrow> realloc_size (int n) = 4 * n"
proof -
  assume n: "n < 2 ^ 31"
  have "int n * 4 < 2 ^ 64" using n by simp
  then have "(int n * 4) mod 2 ^ 64 = int n * 4" by simp
  then show ?thesis by (simp add: realloc_size_def nat_mult_distrib)
qed

lemma store_all:
  "length members \<le> nat n \<Longrightarrow> length members \<le> length glist \<Longrightarrow>
     take (length members) (store_gids glist n members) = map Some members \<and>
     length (store_gids glist n members) = length glist"
  by (simp add: store_gids_def Let_def min_absorb2)

lemma loop_with_room:
  assumes c: "follows_contract sys name gid members"
    and room: "int (length members) \<le> n" and cap: "length members \<le> length glist"
  shows "getgrouplist_loop sys name gid p n glist =
           Some (case setgroups sys (map Some members) (log_event (Getgrouplist name gid n) p) of
                   (ok, p2) \<Rightarrow> if ok then Inr p2 else Inl (Err Err_setgroups, p2))"
proof -
  from c room have resp: "getgrouplist_resp sys name gid n
      = (int (length members), int (length members), members)"
    by (simp add: follows_contract_def posix_getgrouplist_def Let_def)
  from room have "length members \<le> nat n" by simp
  from store_all[OF this cap] have st:
    "take (length members) (store_gids glist n members) = map Some members"
    "length (store_gids glist n members) = length glist"
    by simp_all
  show ?thesis
    by (subst getgrouplist_loop.simps)
       (simp add: resp Let_def st cap split: prod.splits)
qed

lemma loop_without_room:
  assumes c: "follows_contract sys name gid members" and len: "length members < 2 ^ 31"
    and small: "n < int (length members)"
  shows "getgrouplist_loop sys name gid p n glist =
           Some (case realloc sys (store_gids glist n (take (nat n) members))
                        (4 * length members) of
                   None \<Rightarrow> Inl (Err Err_malloc, log_event (Getgrouplist name gid n) p)
                 | Some glist2 \<Rightarrow>
                     (case setgroups sys (map Some members)
                             (log_event (Getgrouplist name gid (int (length members)))
                                (log_event (Getgrouplist name gid n) p)) of
                        (ok, p2) \<Rightarrow> if ok then Inr p2 else Inl (Err Err_setgroups, p2)))"
proof -
  from c small have resp: "getgrouplist_resp sys name gid n
      = (- 1, int (length members), take (nat n) members)"
    by (simp add: follows_contract_def posix_getgrouplist_def Let_def)
  let ?gl = "store_gids glist n (take (nat n) members)"
  show ?thesis
  proof (cases "realloc sys ?gl (4 * length members)")
    case None
    then show ?thesis
      by (subst getgrouplist_loop.simps)
         (simp add: resp Let_def realloc_size_count[OF len])
  next
    case (Some glist2)
    from length_realloc[OF Some] have cap: "length members \<le> length glist2" by simp
    note again = loop_with_room[OF c order_refl cap, of "log_event (Getgrouplist name gid n) p"]
    show ?thesis
      by (subst getgrouplist_loop.simps)
         (simp add: resp Let_def realloc_size_count[OF len] Some again)
  qed
qed

subsection \<open>Numeric tokens\<close>

lemma digit_not_space: "isdigit c \<Longrightarrow> \<not> isspace c"
  by (auto simp: isdigit_def isspace_def)

lemma digit_not_sign: "isdigit c \<Longrightarrow> c \<noteq> CHR ''-'' \<and> c \<noteq> CHR ''+''"
  by (auto simp: isdigit_def)

lemma sign_not_space: "\<not> isspace CHR ''-''" "\<not> isspace CHR ''+''"
  by (simp_all add: isspace_def)

lemma digit_val_nonneg: "isdigit c \<Longrightarrow> 0 \<le> digit_val c"
  by (auto simp: isdigit_def digit_val_def)

lemma foldl_decimal_nonneg:
  "list_all isdigit ds \<Longrightarrow> 0 \<le> a \<Longrightarrow> 0 \<le> foldl (\<lambda>a c. 10 * a + digit_val c) a ds"
proof (induction ds arbitrary: a)
  case Nil
  then show ?case by simp
next
  case (Cons d ds)
  from Cons.prems have "0 \<le> 10 * a + digit_val d"
    using digit_val_nonneg[of d] by simp
  with Cons show ?case by simp
qed

lemma decimal_nonneg: "list_all isdigit ds \<Longrightarrow> 0 \<le> decimal ds"
  by (simp add: decimal_def foldl_decimal_nonneg)

lemma strtol_sign_decomp:
  "strtol_sign r0 = (neg, r) \<Longrightarrow> \<exists>sg. r0 = sg @ r \<and> sg \<in> {[], ''+'', ''-''}"
  by (cases r0) (auto split: if_splits)

lemma strtol_sign_compose:
  assumes "sg \<in> {[], ''+'', ''-''}" and "ds \<noteq> []" and "list_all isdigit ds"
  shows "strtol_sign (sg @ ds) = (sg = ''-'', ds)"
proof -
  from assms(2) obtain d ds' where ds: "ds = d # ds'" by (cases ds) auto
  with assms(3) have "isdigit d" by simp
  from digit_not_sign[OF this] assms(1) ds show ?thesis by auto
qed

lemma strtol_of_numeral:
  assumes ws: "list_all isspace ws" and sg: "sg \<in> {[], ''+'', ''-''}"
    and ne: "ds \<noteq> []" and ds: "list_all isdigit ds"
  shows "strtol (ws @ sg @ ds)
           = (clamp_long (if sg = ''-'' then - decimal ds else decimal ds),
              length (ws @ sg @ ds))"
proof -
  from ne obtain d ds' where dd: "ds = d # ds'" by (cases ds) auto
  with ds have d: "isdigit d" by simp
  have hd_ns: "\<not> isspace (hd (sg @ ds))"
    using sg dd digit_not_space[OF d] sign_not_space by auto
  have "dropWhile isspace (ws @ sg @ ds) = dropWhile isspace (sg @ ds)"
    using ws by (simp add: dropWhile_append2 list_all_iff)
  also have "\<dots> = sg @ ds"
    using hd_ns dd by (cases "sg @ ds") auto
  finally have dw: "dropWhile isspace (ws @ sg @ ds) = sg @ ds" .
  have tw: "takeWhile isdigit ds = ds" "dropWhile isdigit ds = []"
    using ds by (simp_all add: list_all_iff)
  show ?thesis
    unfolding strtol_def dw strtol_sign_compose[OF sg ne ds]
    by (simp add: Let_def tw ne)
qed

lemma is_numeric_iff:
  "is_numeric s \<longleftrightarrow>
     s = [] \<or> (\<exists>ws sg ds. s = ws @ sg @ ds \<and> list_all isspace ws \<and> sg \<in> {[], ''+'', ''-''} \<and>
                 ds \<noteq> [] \<and> list_all isdigit ds)"
proof
  assume n: "is_numeric s"
  show "s = [] \<or> (\<exists>ws sg ds. s = ws @ sg @ ds \<and> list_all isspace ws \<and>
          sg \<in> {[], ''+'', ''-''} \<and> ds \<noteq> [] \<and> list_all isdigit ds)"
  proof (cases "s = []")
    case True
    then show ?thesis by simp
  next
    case False
    obtain neg r where ss: "strtol_sign (dropWhile isspace s) = (neg, r)"
      by (cases "strtol_sign (dropWhile isspace s)") auto
    from strtol_sign_decomp[OF ss] obtain sg where
      sg: "dropWhile isspace s = sg @ r" "sg \<in> {[], ''+'', ''-''}"
      by blast
    have s: "s = takeWhile isspace s @ sg @ r"
      using sg(1) takeWhile_dropWhile_id[of isspace s] by simp
    have dne: "takeWhile isdigit r \<noteq> []"
    proof
      assume "takeWhile isdigit r = []"
      with ss have "strtol s = (0, 0)" by (simp add: strtol_def)
      with n False show False by (simp add: is_numeric_def)
    qed
    with ss have e: "snd (strtol s) = length s - length (dropWhile isdigit r)"
      by (simp add: strtol_def Let_def)
    have "length (dropWhile isdigit r) \<le> length r" by (rule length_dropWhile_le)
    also have "\<dots> \<le> length s" using arg_cong[OF s, of length] by simp
    finally have le: "length (dropWhile isdigit r) \<le> length s" .
    from False have "0 < length s" by simp
    with n e le have "length (dropWhile isdigit r) = 0"
      unfolding is_numeric_def by linarith
    then have "dropWhile isdigit r = []" by (simp only: length_0_conv)
    then have all: "list_all isdigit r" by (simp add: dropWhile_eq_Nil_conv list_all_iff)
    from dne have rne: "r \<noteq> []" by auto
    have "list_all isspace (takeWhile isspace s)"
      by (auto simp: list_all_iff dest: set_takeWhileD)
    with s sg(2) rne all show ?thesis by blast
  qed
next
  assume "s = [] \<or> (\<exists>ws sg ds. s = ws @ sg @ ds \<and> list_all isspace ws \<and>
          sg \<in> {[], ''+'', ''-''} \<and> ds \<noteq> [] \<and> list_all isdigit ds)"
  then show "is_numeric s"
  proof
    assume "s = []"
    then show ?thesis by (simp add: is_numeric_def strtol_def)
  next
    assume "\<exists>ws sg ds. s = ws @ sg @ ds \<and> list_all isspace ws \<and>
          sg \<in> {[], ''+'', ''-''} \<and> ds \<noteq> [] \<and> list_all isdigit ds"
    then obtain ws sg ds where "s = ws @ sg @ ds" "list_all isspace ws"
      "sg \<in> {[], ''+'', ''-''}" "ds \<noteq> []" "list_all isdigit ds"
      by blast
    then show ?thesis
      using strtol_of_numeral[of ws sg ds] by (simp add: is_numeric_def)
  qed
qed

lemma trailing_non_digit: "s \<noteq> [] \<Longrightarrow> \<not> isdigit (last s) \<Longrightarrow> \<not> is_numeric s"
proof
  assume ne: "s \<noteq> []" and nd: "\<not> isdigit (last s)" and "is_numeric s"
  with is_numeric_iff[of s] obtain ws sg ds where
    s: "s = ws @ sg @ ds" and d: "ds \<noteq> []" "list_all isdigit ds"
    by blast
  from s d(1) have "last s = last ds" by simp
  moreover from d have "isdigit (last ds)" by (simp add: list_all_iff)
  ultimately show False using nd by simp
qed

lemma digits_only:
  assumes ne: "s \<noteq> []" and ds: "list_all isdigit s" and small: "decimal s < 2 ^ 32"
  shows "is_numeric s" and "fst (strtol s) = decimal s"
    and "uint (word_of_int (fst (strtol s)) :: 32 word) = decimal s"
proof -
  have st: "strtol s = (clamp_long (decimal s), length s)"
    using strtol_of_numeral[of "[]" "[]" s] ne ds by simp
  then show "is_numeric s" by (simp add: is_numeric_def)
  have nn: "0 \<le> decimal s" using ds by (rule decimal_nonneg)
  with small have "clamp_long (decimal s) = decimal s"
    by (simp add: clamp_long_def LONG_MAX_def LONG_MIN_def)
  with st show v: "fst (strtol s) = decimal s" by simp
  show "uint (word_of_int (fst (strtol s)) :: 32 word) = decimal s"
    unfolding v using nn small by (simp add: uint_word_of_int_eq take_bit_int_eq_self)
qed

lemma get_gid_eq:
  "get_gid sys p s =
     (if is_numeric s then Inr (word_of_int (fst (strtol s)), p)
      else (case getgrnam sys s of
              None \<Rightarrow> Inl (Err (Err_getgrnam s), log_event (Getgrnam s) p)
            | Some gr \<Rightarrow> Inr (gr_gid gr, log_event (Getgrnam s) p)))"
  by (auto simp: get_gid_def is_numeric_def Let_def split: prod.splits option.splits)

lemma resolve_user_eq:
  "s \<noteq> [] \<Longrightarrow>
   resolve_user sys p s =
     (if is_numeric s then
        Inr (case getpwuid sys (word_of_int (fst (strtol s))) of
               None \<Rightarrow> (word_of_int (fst (strtol s)), getgid sys, None)
             | Some e \<Rightarrow> (pw_uid e, pw_gid e, Some e),
             log_event (Getpwuid (word_of_int (fst (strtol s)))) p)
      else (case getpwnam sys s of
              None \<Rightarrow> Inl (Err (Err_getpwnam s), log_event (Getpwnam s) p)
            | Some e \<Rightarrow> Inr ((pw_uid e, pw_gid e, Some e), log_event (Getpwnam s) p)))"
  by (auto simp: resolve_user_def is_numeric_def Let_def split: prod.splits option.splits)

subsection \<open>Tokens and fields of a group part\<close>

text \<open>
  \<^verbatim>\<open>strtok\<close> delivers the non-empty fields. So the tokens always fit into the buffer of
  line 113, and they fill it exactly when no field is empty: then the list given to
  \<^verbatim>\<open>setgroups\<close> holds the gids of all fields, in order, and nothing else.
\<close>

lemma fields_not_Nil: "fields s \<noteq> []"
  by (induction s) auto

lemma length_fields: "int (length (fields s)) = str_occurrences s CHR '','' + 1"
proof (induction s)
  case Nil
  show ?case by (simp add: str_occurrences_eq)
next
  case (Cons c cs)
  have "length (tl (fields cs)) = length (fields cs) - 1" by simp
  moreover have "0 < length (fields cs)" using fields_not_Nil[of cs] by simp
  ultimately show ?case using Cons by (simp add: str_occurrences_eq)
qed

lemma fields_decomp:
  "fields s = takeWhile (\<lambda>c. c \<noteq> CHR '','') s
     # (case dropWhile (\<lambda>c. c \<noteq> CHR '','') s of [] \<Rightarrow> [] | d # rest \<Rightarrow> fields rest)"
proof (induction s)
  case Nil
  show ?case by simp
next
  case (Cons c cs)
  show ?case
  proof (cases "c = CHR '',''")
    case True
    then show ?thesis by simp
  next
    case False
    then show ?thesis by (subst fields.simps) (simp add: Cons)
  qed
qed

lemma filter_fields_leading:
  "filter (\<lambda>f. f \<noteq> []) (fields s)
     = filter (\<lambda>f. f \<noteq> []) (fields (dropWhile (\<lambda>c. c = CHR '','') s))"
  by (induction s) auto

lemma strtok_Nil_iff:
  "dropWhile (\<lambda>c. c = CHR '','') s = [] \<Longrightarrow> strtok s '','' = (None, [])"
  by (simp add: strtok_def Let_def)

lemma strtok_Some:
  "dropWhile (\<lambda>c. c = CHR '','') s = s1 \<Longrightarrow> s1 \<noteq> [] \<Longrightarrow>
     strtok s '','' = (Some (takeWhile (\<lambda>c. c \<noteq> CHR '','') s1),
                       drop 1 (dropWhile (\<lambda>c. c \<noteq> CHR '','') s1))"
  by (simp add: strtok_def Let_def)

lemma fields_first_token:
  assumes "s1 \<noteq> []" and "hd s1 \<noteq> CHR '',''"
  shows "filter (\<lambda>f. f \<noteq> []) (fields s1)
           = takeWhile (\<lambda>c. c \<noteq> CHR '','') s1
               # filter (\<lambda>f. f \<noteq> []) (fields (drop 1 (dropWhile (\<lambda>c. c \<noteq> CHR '','') s1)))"
proof -
  from assms obtain a rest where s1: "s1 = a # rest" "a \<noteq> CHR '',''" by (cases s1) auto
  then have ne: "takeWhile (\<lambda>c. c \<noteq> CHR '','') s1 \<noteq> []" by simp
  show ?thesis
  proof (cases "dropWhile (\<lambda>c. c \<noteq> CHR '','') s1")
    case Nil
    have "fields s1 = [takeWhile (\<lambda>c. c \<noteq> CHR '','') s1]"
      by (subst fields_decomp) (simp only: Nil list.case)
    with ne show ?thesis unfolding Nil by simp
  next
    case (Cons d more)
    have "fields s1 = takeWhile (\<lambda>c. c \<noteq> CHR '','') s1 # fields more"
      by (subst fields_decomp) (simp only: Cons list.case)
    with ne show ?thesis unfolding Cons by simp
  qed
qed

lemma strtok_all_fields: "strtok_all s = filter (\<lambda>f. f \<noteq> []) (fields s)"
proof (induction s rule: strtok_all.induct)
  case (1 s)
  define s1 where "s1 = dropWhile (\<lambda>c. c = CHR '','') s"
  have lead: "filter (\<lambda>f. f \<noteq> []) (fields s) = filter (\<lambda>f. f \<noteq> []) (fields s1)"
    unfolding s1_def by (rule filter_fields_leading)
  show ?case
  proof (cases "s1 = []")
    case True
    then have "strtok s '','' = (None, [])"
      unfolding s1_def by (rule strtok_Nil_iff)
    then have "strtok_all s = []" by (simp add: strtok_all.simps[of s])
    with lead True show ?thesis by simp
  next
    case False
    define tok where "tok = takeWhile (\<lambda>c. c \<noteq> CHR '','') s1"
    define save where "save = drop 1 (dropWhile (\<lambda>c. c \<noteq> CHR '','') s1)"
    have st: "strtok s '','' = (Some tok, save)"
      unfolding tok_def save_def by (rule strtok_Some[OF s1_def[symmetric] False])
    have hd1: "hd s1 \<noteq> CHR '',''"
      using False hd_dropWhile[of "\<lambda>c. c = CHR '',''" s] unfolding s1_def by blast
    have ih: "strtok_all save = filter (\<lambda>f. f \<noteq> []) (fields save)"
      by (rule "1.IH"[OF st[symmetric] refl])
    have all: "strtok_all s = tok # strtok_all save"
      by (subst strtok_all.simps) (simp add: st)
    have "filter (\<lambda>f. f \<noteq> []) (fields s1) = tok # filter (\<lambda>f. f \<noteq> []) (fields save)"
      unfolding tok_def save_def by (rule fields_first_token[OF False hd1])
    with lead all ih show ?thesis by simp
  qed
qed

lemma tokens_fit: "length (strtok_all g) \<le> nat (str_occurrences g CHR '','' + 1)"
proof -
  have "length (strtok_all g) \<le> length (fields g)"
    by (simp add: strtok_all_fields)
  also have "\<dots> = nat (str_occurrences g CHR '','' + 1)"
    using length_fields[of g] by simp
  finally show ?thesis .
qed

lemma explicit_gidlist_no_empty_field:
  assumes "[] \<notin> set (fields g)"
  shows "strtok_all g = fields g" and "explicit_gidlist sys g = map (gid_of sys) (fields g)"
proof -
  from assms have "filter (\<lambda>f. f \<noteq> []) (fields g) = fields g"
    by (auto simp: filter_id_conv)
  then show t: "strtok_all g = fields g" by (simp add: strtok_all_fields)
  have "nat (str_occurrences g CHR '','' + 1) = length (fields g)"
    using length_fields[of g] by simp
  then show "explicit_gidlist sys g = map (gid_of sys) (fields g)"
    by (simp add: explicit_gidlist_def t)
qed

lemma main_Exec_no_empty_field:
  assumes run: "main sys p argv = Some (oc, p')" and called: "execvp_called oc"
    and sp: "split_user_spec (argv ! 1) = (user, Some g)" and wf: "[] \<notin> set (fields g)"
  shows "\<exists>gids. map (gid_of sys) (fields g) = map Some gids \<and> gids \<noteq> [] \<and>
           p_groups p' = map Some gids \<and>
           p_trace p' = p_trace p @ user_events sys user
             @ [Setenv ''HOME'' (home_of (resolved_record sys user))]
             @ concat (map gid_events (fields g))
             @ [Setgroups (map Some gids), Setgid (hd gids), Setuid (uid_of sys user),
                Execvp (drop 2 argv)]"
proof -
  from wf have ne: "g \<noteq> []" by auto
  note e = explicit_gidlist_no_empty_field(1)[OF wf]
    explicit_gidlist_no_empty_field(2)[OF wf, of sys]
  note m = main_Exec_explicit[OF run called sp ne, unfolded e]
  define gids where "gids = map (\<lambda>t. the (gid_of sys t)) (fields g)"
  from m(4) have all: "map (gid_of sys) (fields g) = map Some gids"
    unfolding gids_def by (auto simp: map_idI)
  from m(3) have gne: "gids \<noteq> []" by (simp add: gids_def)
  from m(1) obtain gid1 where g1: "gid_of sys (hd (fields g)) = Some gid1"
    and tr: "p_trace p' = p_trace p @ user_events sys user
             @ [Setenv ''HOME'' (home_of (resolved_record sys user))]
             @ concat (map gid_events (fields g))
             @ [Setgroups (map (gid_of sys) (fields g)), Setgid gid1, Setuid (uid_of sys user),
                Execvp (drop 2 argv)]"
    by blast
  from g1 m(3) have "gid1 = hd gids" by (simp add: gids_def hd_map)
  with tr all m(2) gne show ?thesis by auto
qed

section \<open>The claims\<close>

text \<open>
  C1. In every run that reaches process replacement (\<^verbatim>\<open>execvp\<close> is called, with or without
  success) the identity changes happen in the order supplementary groups, gid, uid: among the
  calls made before \<^verbatim>\<open>execvp\<close>, the calls that change the identity are \<^verbatim>\<open>setgid\<close> then
  \<^verbatim>\<open>setuid\<close>, with at most one \<^verbatim>\<open>setgroups\<close>, and that one in front. So no \<^verbatim>\<open>setgid\<close> comes
  before a \<^verbatim>\<open>setgroups\<close>, \<^verbatim>\<open>setuid\<close> is the last identity change, and the order is never uid
  before gid.
\<close>

theorem identity_change_order:
  assumes run: "main sys p argv = Some (oc, p')" and called: "execvp_called oc"
  shows "\<exists>evs gid uid. p_trace p' = p_trace p @ evs @ [Execvp (drop 2 argv)] \<and>
           (filter is_identity_change evs = [Setgid gid, Setuid uid] \<or>
            (\<exists>gl. filter is_identity_change evs = [Setgroups gl, Setgid gid, Setuid uid]))"
proof -
  obtain user gp where sp: "split_user_spec (argv ! 1) = (user, gp)"
    by (cases "split_user_spec (argv ! 1)") auto
  show ?thesis
  proof (cases "gp = None \<or> gp = Some []")
    case False
    then obtain g where g: "gp = Some g" "g \<noteq> []" by (cases gp) auto
    from main_Exec_explicit(1)[OF run called sp[unfolded g(1)] g(2)] obtain gid1 where
      tr: "p_trace p' = p_trace p @ (user_events sys user
             @ [Setenv ''HOME'' (home_of (resolved_record sys user))]
             @ concat (map gid_events (strtok_all g))
             @ [Setgroups (explicit_gidlist sys g), Setgid gid1, Setuid (uid_of sys user)])
             @ [Execvp (drop 2 argv)]"
      by auto
    show ?thesis
      by (rule exI, rule exI, rule exI, rule conjI, rule tr) simp
  next
    case True
    show ?thesis
    proof (cases "resolved_record sys user")
      case None
      from main_Exec_inherit(1)[OF run called sp True None]
      have tr: "p_trace p' = p_trace p @ (user_events sys user
           @ [Setenv ''HOME'' ''/'', Setgid (getgid sys), Setuid (uid_of sys user)])
           @ [Execvp (drop 2 argv)]"
        by simp
      show ?thesis
        by (rule exI, rule exI, rule exI, rule conjI, rule tr) simp
    next
      case (Some e)
      from main_Exec_derived[OF run called sp True Some] obtain ns gl where
        tr: "p_trace p' = p_trace p @ (user_events sys user
           @ [Setenv ''HOME'' (pw_dir e)] @ map (Getgrouplist (pw_name e) (pw_gid e)) ns
           @ [Setgroups gl, Setgid (pw_gid e), Setuid (pw_uid e)]) @ [Execvp (drop 2 argv)]"
        by auto
      show ?thesis
        by (rule exI, rule exI, rule exI, rule conjI, rule tr) simp
    qed
  qed
qed

theorem identity_change_order_witness:
  "main demo_os proc0 [''su-exec'', ''alice'', ''/bin/true''] =
     Some (Exec [''/bin/true''],
       \<lparr>p_env = [(''PATH'', ''/bin''), (''HOME'', ''/home/alice'')],
        p_groups = [Some 1000, Some 50], p_stdout = [],
        p_trace = [Getpwnam ''alice'', Setenv ''HOME'' ''/home/alice'',
          Getgrouplist ''alice'' 1000 0, Getgrouplist ''alice'' 1000 2,
          Setgroups [Some 1000, Some 50], Setgid 1000, Setuid 1000, Execvp [''/bin/true'']]\<rparr>)
   \<and> (\<exists>evs gid uid.
        [Getpwnam ''alice'', Setenv ''HOME'' ''/home/alice'',
          Getgrouplist ''alice'' 1000 0, Getgrouplist ''alice'' 1000 2,
          Setgroups [Some 1000, Some 50], Setgid 1000, Setuid 1000, Execvp [''/bin/true'']]
          = p_trace proc0 @ evs @ [Execvp [''/bin/true'']] \<and>
        (filter is_identity_change evs = [Setgid gid, Setuid uid] \<or>
         (\<exists>gl. filter is_identity_change evs = [Setgroups gl, Setgid gid, Setuid uid])))"
proof -
  have run: "main demo_os proc0 [''su-exec'', ''alice'', ''/bin/true''] =
     Some (Exec [''/bin/true''],
       \<lparr>p_env = [(''PATH'', ''/bin''), (''HOME'', ''/home/alice'')],
        p_groups = [Some 1000, Some 50], p_stdout = [],
        p_trace = [Getpwnam ''alice'', Setenv ''HOME'' ''/home/alice'',
          Getgrouplist ''alice'' 1000 0, Getgrouplist ''alice'' 1000 2,
          Setgroups [Some 1000, Some 50], Setgid 1000, Setuid 1000, Execvp [''/bin/true'']]\<rparr>)"
    by code_simp
  have called: "execvp_called (Exec [''/bin/true''])" by simp
  from identity_change_order [OF run called] run show ?thesis by simp
qed

text \<open>
  C5. The user-spec is cut at its first colon only: what precedes the first colon is the user
  part and everything behind it, further colons included, is the group part; a user-spec
  without a colon is the user part alone, with no group part.
\<close>

theorem split_at_first_colon:
  assumes "CHR '':'' \<notin> set u"
  shows "split_user_spec (u @ CHR '':'' # g) = (u, Some g) \<and> split_user_spec u = (u, None)"
  using assms by (simp add: split_user_spec_def strchr_first strchr_absent)

theorem split_at_first_colon_witness:
  "split_user_spec ''alice:staff'' = (''alice'', Some ''staff'') \<and>
   split_user_spec ''alice'' = (''alice'', None) \<and>
   split_user_spec '':staff'' = ('''', Some ''staff'') \<and>
   split_user_spec ''alice:staff:wheel'' = (''alice'', Some ''staff:wheel'')"
  using split_at_first_colon [of "''alice''" "''staff''"]
    split_at_first_colon [of "''''" "''staff''"]
    split_at_first_colon [of "''alice''" "''staff:wheel''"]
  by simp

text \<open>
  C9. Started with fewer than two arguments behind the program name, whatever they are, the
  program prints the usage line, which is not empty, to standard output and exits with
  status 0. Nothing else happens: the process is as it was but for its standard output, so
  there is no lookup, no change of identity and no \<^verbatim>\<open>execvp\<close> in its trace.
\<close>

theorem usage_on_few_arguments:
  assumes "length argv < 3"
  shows "main sys p argv =
           Some (Exit 0, p\<lparr>p_stdout := p_stdout p
                   @ usage_text (case argv of [] \<Rightarrow> None | a # as \<Rightarrow> Some a)\<rparr>) \<and>
         usage_text (case argv of [] \<Rightarrow> None | a # as \<Rightarrow> Some a) \<noteq> []"
  using assms by (simp add: main_def usage_def usage_text_def)

theorem usage_on_few_arguments_witness:
  "length [''su-exec'', ''root:root''] < 3 \<and>
   main demo_os proc0 [''su-exec'', ''root:root''] =
     Some (Exit 0, proc0\<lparr>p_stdout := p_stdout proc0 @ usage_text (Some ''su-exec'')\<rparr>) \<and>
   usage_text (Some ''su-exec'') \<noteq> []"
proof -
  have h: "length [''su-exec'', ''root:root''] < 3" by simp
  from usage_on_few_arguments [OF h, of demo_os proc0] h show ?thesis by simp
qed

text \<open>
  C8. In every run that reaches process replacement (\<^verbatim>\<open>execvp\<close> is called) \<^verbatim>\<open>setenv\<close> is
  called exactly once, before \<^verbatim>\<open>execvp\<close>, for \<^verbatim>\<open>HOME\<close>: with the home directory of the
  resolved record when there is one, with \<^verbatim>\<open>/\<close> otherwise. The environment handed to the
  new image is the caller's with \<^verbatim>\<open>HOME\<close> overwritten; every other variable is as it was.
\<close>

theorem home_set_once:
  assumes run: "main sys p argv = Some (oc, p')" and called: "execvp_called oc"
    and sp: "split_user_spec (argv ! 1) = (user, gp)"
  shows "\<exists>evs. p_trace p' = p_trace p @ evs @ [Execvp (drop 2 argv)] \<and>
           filter is_setenv evs = [Setenv ''HOME'' (home_of (resolved_record sys user))] \<and>
           p_env p' = AList.update ''HOME'' (home_of (resolved_record sys user)) (p_env p) \<and>
           map_of (p_env p') = (map_of (p_env p))(''HOME'' \<mapsto> home_of (resolved_record sys user))"
proof -
  let ?home = "home_of (resolved_record sys user)"
  have env: "p_env p' = AList.update ''HOME'' ?home (p_env p)"
    by (rule main_Exec_fields(3)[OF run called sp])
  have "\<exists>evs. p_trace p' = p_trace p @ evs @ [Execvp (drop 2 argv)] \<and>
           filter is_setenv evs = [Setenv ''HOME'' ?home]"
  proof (cases "gp = None \<or> gp = Some []")
    case False
    then obtain g where g: "gp = Some g" "g \<noteq> []" by (cases gp) auto
    from main_Exec_explicit(1)[OF run called sp[unfolded g(1)] g(2)] obtain gid1 where
      tr: "p_trace p' = p_trace p @ (user_events sys user @ [Setenv ''HOME'' ?home]
             @ concat (map gid_events (strtok_all g))
             @ [Setgroups (explicit_gidlist sys g), Setgid gid1, Setuid (uid_of sys user)])
             @ [Execvp (drop 2 argv)]"
      by auto
    show ?thesis by (rule exI, rule conjI, rule tr) simp
  next
    case True
    show ?thesis
    proof (cases "resolved_record sys user")
      case None
      from main_Exec_inherit(1)[OF run called sp True None]
      have tr: "p_trace p' = p_trace p @ (user_events sys user
           @ [Setenv ''HOME'' ''/'', Setgid (getgid sys), Setuid (uid_of sys user)])
           @ [Execvp (drop 2 argv)]"
        by simp
      show ?thesis by (rule exI, rule conjI, rule tr) (simp add: None home_of_def)
    next
      case (Some e)
      from main_Exec_derived[OF run called sp True Some] obtain ns gl where
        tr: "p_trace p' = p_trace p @ (user_events sys user
           @ [Setenv ''HOME'' (pw_dir e)] @ map (Getgrouplist (pw_name e) (pw_gid e)) ns
           @ [Setgroups gl, Setgid (pw_gid e), Setuid (pw_uid e)]) @ [Execvp (drop 2 argv)]"
        by auto
      show ?thesis by (rule exI, rule conjI, rule tr) (simp add: Some home_of_def)
    qed
  qed
  with env show ?thesis by (auto simp: AList.update_conv')
qed

theorem home_set_once_witness:
  "main demo_os proc0 [''su-exec'', ''alice:staff'', ''/bin/true''] =
     Some (Exec [''/bin/true''],
       \<lparr>p_env = [(''PATH'', ''/bin''), (''HOME'', ''/home/alice'')],
        p_groups = [Some 50], p_stdout = [],
        p_trace = [Getpwnam ''alice'', Setenv ''HOME'' ''/home/alice'', Getgrnam ''staff'',
          Setgroups [Some 50], Setgid 50, Setuid 1000, Execvp [''/bin/true'']]\<rparr>)
   \<and> split_user_spec ([''su-exec'', ''alice:staff'', ''/bin/true''] ! 1) = (''alice'', Some ''staff'')
   \<and> home_of (resolved_record demo_os ''alice'') = ''/home/alice''
   \<and> (\<exists>evs. [Getpwnam ''alice'', Setenv ''HOME'' ''/home/alice'', Getgrnam ''staff'',
          Setgroups [Some 50], Setgid 50, Setuid 1000, Execvp [''/bin/true'']]
          = p_trace proc0 @ evs @ [Execvp [''/bin/true'']] \<and>
        filter is_setenv evs = [Setenv ''HOME'' ''/home/alice''] \<and>
        [(''PATH'', ''/bin''), (''HOME'', ''/home/alice'')]
          = AList.update ''HOME'' ''/home/alice'' (p_env proc0) \<and>
        map_of [(''PATH'', ''/bin''), (''HOME'', ''/home/alice'')]
          = (map_of (p_env proc0))(''HOME'' \<mapsto> ''/home/alice''))"
proof -
  have run: "main demo_os proc0 [''su-exec'', ''alice:staff'', ''/bin/true''] =
     Some (Exec [''/bin/true''],
       \<lparr>p_env = [(''PATH'', ''/bin''), (''HOME'', ''/home/alice'')],
        p_groups = [Some 50], p_stdout = [],
        p_trace = [Getpwnam ''alice'', Setenv ''HOME'' ''/home/alice'', Getgrnam ''staff'',
          Setgroups [Some 50], Setgid 50, Setuid 1000, Execvp [''/bin/true'']]\<rparr>)"
    by code_simp
  have sp: "split_user_spec ([''su-exec'', ''alice:staff'', ''/bin/true''] ! 1)
      = (''alice'', Some ''staff'')"
    by code_simp
  have home: "home_of (resolved_record demo_os ''alice'') = ''/home/alice''"
    by code_simp
  have called: "execvp_called (Exec [''/bin/true''])" by simp
  from home_set_once [OF run called sp] run sp home show ?thesis by simp
qed

text \<open>
  C10. When the user part is a numeric uid without a record in the user database and the
  group part is absent or empty, the run ends, \<^verbatim>\<open>setgroups\<close> is never called and the
  supplementary groups of the process stay the caller's; a run that reaches \<^verbatim>\<open>execvp\<close> has
  made exactly the calls \<^verbatim>\<open>getpwuid\<close>, \<^verbatim>\<open>setenv\<close>, \<^verbatim>\<open>setgid\<close> with the caller's gid and
  \<^verbatim>\<open>setuid\<close> with the numeric uid before it.
\<close>

theorem numeric_uid_without_record_keeps_groups:
  assumes len: "3 \<le> length argv"
    and sp: "split_user_spec (argv ! 1) = (user, gp)"
    and ne: "user \<noteq> []" and num: "is_numeric user"
    and norec: "getpwuid sys (word_of_int (fst (strtol user))) = None"
    and ab: "gp = None \<or> gp = Some []"
  shows "\<exists>oc p' evs. main sys p argv = Some (oc, p') \<and> p_groups p' = p_groups p \<and>
           p_trace p' = p_trace p @ evs \<and> (\<forall>gl. Setgroups gl \<notin> set evs) \<and>
           (execvp_called oc \<longrightarrow>
              evs = [Getpwuid (word_of_int (fst (strtol user))), Setenv ''HOME'' ''/'',
                     Setgid (getgid sys), Setuid (word_of_int (fst (strtol user))),
                     Execvp (drop 2 argv)])"
proof -
  let ?nuid = "word_of_int (fst (strtol user)) :: uid_t"
  let ?p2 = "setenv ''HOME'' ''/'' (log_event (Getpwuid ?nuid) p)"
  obtain oc p' where d: "drop_and_exec sys ?p2 (getgid sys) ?nuid (drop 2 argv) = (oc, p')"
    by (cases "drop_and_exec sys ?p2 (getgid sys) ?nuid (drop 2 argv)") auto
  have m: "main sys p argv = Some (oc, p')"
    using main_numeric_no_record[OF len sp ne num norec ab] d by simp
  from drop_and_exec_any(4)[OF d] obtain evs where
    evs: "p_trace p' = p_trace ?p2 @ evs"
      "set evs \<subseteq> {Setgid (getgid sys), Setuid ?nuid, Execvp (drop 2 argv)}"
    by blast
  have g: "p_groups p' = p_groups p" using drop_and_exec_any(1)[OF d] by simp
  have tr: "p_trace p' = p_trace p @ ([Getpwuid ?nuid, Setenv ''HOME'' ''/''] @ evs)"
    using evs(1) by simp
  have nosg: "\<forall>gl. Setgroups gl \<notin> set ([Getpwuid ?nuid, Setenv ''HOME'' ''/''] @ evs)"
    using evs(2) by auto
  have ex: "execvp_called oc \<longrightarrow>
      [Getpwuid ?nuid, Setenv ''HOME'' ''/''] @ evs =
        [Getpwuid ?nuid, Setenv ''HOME'' ''/'', Setgid (getgid sys), Setuid ?nuid,
         Execvp (drop 2 argv)]"
  proof
    assume "execvp_called oc"
    from drop_and_exec_Exec(2)[OF d this]
    have "p_trace p' = p_trace ?p2 @ [Setgid (getgid sys), Setuid ?nuid, Execvp (drop 2 argv)]" .
    with evs(1) show "[Getpwuid ?nuid, Setenv ''HOME'' ''/''] @ evs =
        [Getpwuid ?nuid, Setenv ''HOME'' ''/'', Setgid (getgid sys), Setuid ?nuid,
         Execvp (drop 2 argv)]"
      by simp
  qed
  from m g tr nosg ex show ?thesis by blast
qed

theorem numeric_uid_without_record_keeps_groups_witness:
  "3 \<le> length [''su-exec'', ''12345'', ''/bin/true''] \<and>
   split_user_spec ([''su-exec'', ''12345'', ''/bin/true''] ! 1) = (''12345'', None) \<and>
   ''12345'' \<noteq> [] \<and> is_numeric ''12345'' \<and>
   getpwuid demo_os (word_of_int (fst (strtol ''12345''))) = None \<and>
   main demo_os proc0 [''su-exec'', ''12345'', ''/bin/true''] =
     Some (Exec [''/bin/true''],
       \<lparr>p_env = [(''PATH'', ''/bin''), (''HOME'', ''/'')],
        p_groups = [Some 0], p_stdout = [],
        p_trace = [Getpwuid 12345, Setenv ''HOME'' ''/'', Setgid 0, Setuid 12345,
          Execvp [''/bin/true'']]\<rparr>) \<and>
   p_groups proc0 = [Some 0] \<and>
   (\<exists>oc p' evs. main demo_os proc0 [''su-exec'', ''12345'', ''/bin/true''] = Some (oc, p') \<and>
      p_groups p' = p_groups proc0 \<and> p_trace p' = p_trace proc0 @ evs \<and>
      (\<forall>gl. Setgroups gl \<notin> set evs) \<and>
      (execvp_called oc \<longrightarrow>
         evs = [Getpwuid (word_of_int (fst (strtol ''12345''))), Setenv ''HOME'' ''/'',
                Setgid (getgid demo_os), Setuid (word_of_int (fst (strtol ''12345''))),
                Execvp (drop 2 [''su-exec'', ''12345'', ''/bin/true''])]))"
proof -
  have len: "3 \<le> length [''su-exec'', ''12345'', ''/bin/true'']" by simp
  have sp: "split_user_spec ([''su-exec'', ''12345'', ''/bin/true''] ! 1) = (''12345'', None)"
    by code_simp
  have ne: "''12345'' \<noteq> []" by simp
  have num: "is_numeric ''12345''" by code_simp
  have norec: "getpwuid demo_os (word_of_int (fst (strtol ''12345''))) = None" by code_simp
  have run: "main demo_os proc0 [''su-exec'', ''12345'', ''/bin/true''] =
     Some (Exec [''/bin/true''],
       \<lparr>p_env = [(''PATH'', ''/bin''), (''HOME'', ''/'')],
        p_groups = [Some 0], p_stdout = [],
        p_trace = [Getpwuid 12345, Setenv ''HOME'' ''/'', Setgid 0, Setuid 12345,
          Execvp [''/bin/true'']]\<rparr>)"
    by code_simp
  have g0: "p_groups proc0 = [Some 0]" by (simp add: proc0_def)
  from numeric_uid_without_record_keeps_groups [OF len sp ne num norec disjI1 [OF refl],
      of proc0] len sp ne num norec run g0
  show ?thesis by blast
qed

text \<open>
  C2 fails on the code for a group part with an empty field, by the defect of C6. For
  \<^verbatim>\<open>alice:100,\<close> the group part \<^verbatim>\<open>100,\<close> has the single token \<^verbatim>\<open>100\<close>; the program calls
  neither \<^verbatim>\<open>getgrouplist\<close> nor any other lookup for groups and gives \<^verbatim>\<open>setgid\<close> the gid 100 of
  that token, as the claim says, but \<^verbatim>\<open>setgroups\<close> is called with two entries, the second one
  never written: the explicit tokens are not the sole source of the supplementary groups.
\<close>

theorem trailing_comma_adds_unwritten_group:
  "split_user_spec ([''su-exec'', ''alice:100,'', ''/bin/true''] ! 1) = (''alice'', Some ''100,'') \<and>
   strtok_all ''100,'' = [''100''] \<and>
   gid_of demo_os ''100'' = Some 100 \<and>
   main demo_os proc0 [''su-exec'', ''alice:100,'', ''/bin/true''] =
     Some (Exec [''/bin/true''],
       \<lparr>p_env = [(''PATH'', ''/bin''), (''HOME'', ''/home/alice'')],
        p_groups = [Some 100, None], p_stdout = [],
        p_trace = [Getpwnam ''alice'', Setenv ''HOME'' ''/home/alice'',
          Setgroups [Some 100, None], Setgid 100, Setuid 1000, Execvp [''/bin/true'']]\<rparr>)"
  by code_simp

text \<open>
  C3, as the claim states it, fails: a caller with uid 0 and current gid 5, on a system
  whose user database gives uid 0 the gid 0, runs the program with an empty user part; the
  program calls \<^verbatim>\<open>setgid(0)\<close>, not \<^verbatim>\<open>setgid(5)\<close>.
\<close>

theorem empty_user_gid_counterexample:
  "split_user_spec ([''su-exec'', '''', ''/bin/true''] ! 1) = ('''', None) \<and>
   getgid gid5_os = 5 \<and>
   main gid5_os proc0 [''su-exec'', '''', ''/bin/true''] =
     Some (Exec [''/bin/true''],
       \<lparr>p_env = [(''PATH'', ''/bin''), (''HOME'', ''/root'')],
        p_groups = [Some 0], p_stdout = [],
        p_trace = [Getpwuid 0, Setenv ''HOME'' ''/root'', Getgrouplist ''root'' 0 0,
          Getgrouplist ''root'' 0 1, Setgroups [Some 0], Setgid 0, Setuid 0,
          Execvp [''/bin/true'']]\<rparr>)"
  by code_simp

text \<open>
  C3, amended. In every run with an empty user part that reaches process replacement
  (\<^verbatim>\<open>execvp\<close> is called), the last identity changes before \<^verbatim>\<open>execvp\<close> are \<^verbatim>\<open>setgid\<close> and
  \<^verbatim>\<open>setuid\<close>, and \<^verbatim>\<open>setuid\<close> is called with the caller's uid. The gid given to \<^verbatim>\<open>setgid\<close> is the caller's gid when the
  group part is absent or empty and the user database has no record for the caller's uid;
  with such a record it is the gid of that record (lines 86-90), and with a non-empty group
  part it is the gid of the first group token.
\<close>

theorem empty_user_defaults:
  assumes run: "main sys p argv = Some (oc, p')" and called: "execvp_called oc"
    and sp: "split_user_spec (argv ! 1) = ([], gp)"
  shows "\<exists>evs gid. p_trace p' = p_trace p @ evs @ [Setgid gid, Setuid (getuid sys), Execvp (drop 2 argv)] \<and>
           (filter is_identity_change evs = [] \<or>
            (\<exists>gl. filter is_identity_change evs = [Setgroups gl])) \<and>
           ((gp = None \<or> gp = Some []) \<and> getpwuid sys (getuid sys) = None
              \<longrightarrow> gid = getgid sys) \<and>
           (\<forall>e. (gp = None \<or> gp = Some []) \<and> getpwuid sys (getuid sys) = Some e
              \<longrightarrow> gid = pw_gid e) \<and>
           (\<forall>g. gp = Some g \<and> g \<noteq> [] \<longrightarrow> gid_of sys (hd (strtok_all g)) = Some gid)"
proof -
  have rr: "resolved_record sys [] = getpwuid sys (getuid sys)"
    by (simp add: resolved_record_def)
  show ?thesis
  proof (cases "gp = None \<or> gp = Some []")
    case False
    then obtain g where g: "gp = Some g" "g \<noteq> []" by (cases gp) auto
    from main_Exec_explicit(1)[OF run called sp[unfolded g(1)] g(2)] obtain gid1 where
      gid1: "gid_of sys (hd (strtok_all g)) = Some gid1" and
      tr: "p_trace p' = p_trace p @ (user_events sys []
             @ [Setenv ''HOME'' (home_of (resolved_record sys []))]
             @ concat (map gid_events (strtok_all g))
             @ [Setgroups (explicit_gidlist sys g)])
             @ [Setgid gid1, Setuid (getuid sys), Execvp (drop 2 argv)]"
      by (auto simp: uid_of_empty)
    show ?thesis
      by (rule exI, rule exI, rule conjI, rule tr) (use g gid1 in simp)
  next
    case True
    show ?thesis
    proof (cases "getpwuid sys (getuid sys)")
      case None
      from main_Exec_inherit(1)[OF run called sp True None[folded rr]]
      have tr: "p_trace p' = p_trace p @ (user_events sys [] @ [Setenv ''HOME'' ''/''])
           @ [Setgid (getgid sys), Setuid (getuid sys), Execvp (drop 2 argv)]"
        by (simp add: uid_of_empty)
      show ?thesis
        by (rule exI, rule exI, rule conjI, rule tr) (use True None in auto)
    next
      case (Some e)
      from main_Exec_derived[OF run called sp True Some[folded rr]] obtain ns gl where
        tr: "p_trace p' = p_trace p @ (user_events sys []
           @ [Setenv ''HOME'' (pw_dir e)] @ map (Getgrouplist (pw_name e) (pw_gid e)) ns
           @ [Setgroups gl]) @ [Setgid (pw_gid e), Setuid (getuid sys), Execvp (drop 2 argv)]"
        by (auto simp: getpwuid_Some[OF Some])
      show ?thesis
        by (rule exI, rule exI, rule conjI, rule tr) (use True Some in auto)
    qed
  qed
qed

theorem empty_user_defaults_witness:
  "main gid5_os proc0 [''su-exec'', '''', ''/bin/true''] =
     Some (Exec [''/bin/true''],
       \<lparr>p_env = [(''PATH'', ''/bin''), (''HOME'', ''/root'')],
        p_groups = [Some 0], p_stdout = [],
        p_trace = [Getpwuid 0, Setenv ''HOME'' ''/root'', Getgrouplist ''root'' 0 0,
          Getgrouplist ''root'' 0 1, Setgroups [Some 0], Setgid 0, Setuid 0,
          Execvp [''/bin/true'']]\<rparr>) \<and>
   split_user_spec ([''su-exec'', '''', ''/bin/true''] ! 1) = ('''', None) \<and>
   getuid gid5_os = 0 \<and> getpwuid gid5_os 0 = Some root_pw \<and> pw_gid root_pw = 0 \<and>
   (\<exists>evs gid.
      [Getpwuid 0, Setenv ''HOME'' ''/root'', Getgrouplist ''root'' 0 0,
       Getgrouplist ''root'' 0 1, Setgroups [Some 0], Setgid 0, Setuid 0, Execvp [''/bin/true'']]
        = p_trace proc0 @ evs @ [Setgid gid, Setuid 0, Execvp [''/bin/true'']] \<and>
      (filter is_identity_change evs = [] \<or>
       (\<exists>gl. filter is_identity_change evs = [Setgroups gl])) \<and>
      gid = pw_gid root_pw)"
proof -
  have run: "main gid5_os proc0 [''su-exec'', '''', ''/bin/true''] =
     Some (Exec [''/bin/true''],
       \<lparr>p_env = [(''PATH'', ''/bin''), (''HOME'', ''/root'')],
        p_groups = [Some 0], p_stdout = [],
        p_trace = [Getpwuid 0, Setenv ''HOME'' ''/root'', Getgrouplist ''root'' 0 0,
          Getgrouplist ''root'' 0 1, Setgroups [Some 0], Setgid 0, Setuid 0,
          Execvp [''/bin/true'']]\<rparr>)"
    by code_simp
  have sp: "split_user_spec ([''su-exec'', '''', ''/bin/true''] ! 1) = ('''', None)"
    by code_simp
  have u: "getuid gid5_os = 0" by code_simp
  have r: "getpwuid gid5_os 0 = Some root_pw" by code_simp
  have g: "pw_gid root_pw = 0" by (simp add: root_pw_def)
  have called: "execvp_called (Exec [''/bin/true''])" by simp
  from empty_user_defaults [OF run called sp] obtain evs gid where
    "p_trace \<lparr>p_env = [(''PATH'', ''/bin''), (''HOME'', ''/root'')],
        p_groups = [Some 0], p_stdout = [],
        p_trace = [Getpwuid 0, Setenv ''HOME'' ''/root'', Getgrouplist ''root'' 0 0,
          Getgrouplist ''root'' 0 1, Setgroups [Some 0], Setgid 0, Setuid 0,
          Execvp [''/bin/true'']]\<rparr>
       = p_trace proc0 @ evs @ [Setgid gid, Setuid (getuid gid5_os),
           Execvp (drop 2 [''su-exec'', '''', ''/bin/true''])]"
    "filter is_identity_change evs = [] \<or> (\<exists>gl. filter is_identity_change evs = [Setgroups gl])"
    "\<forall>e. (None = None \<or> None = Some []) \<and> getpwuid gid5_os (getuid gid5_os) = Some e
        \<longrightarrow> gid = pw_gid e"
    by blast
  with u r have
    "[Getpwuid 0, Setenv ''HOME'' ''/root'', Getgrouplist ''root'' 0 0,
       Getgrouplist ''root'' 0 1, Setgroups [Some 0], Setgid 0, Setuid 0, Execvp [''/bin/true'']]
        = p_trace proc0 @ evs @ [Setgid gid, Setuid 0, Execvp [''/bin/true'']] \<and>
      (filter is_identity_change evs = [] \<or>
       (\<exists>gl. filter is_identity_change evs = [Setgroups gl])) \<and>
      gid = pw_gid root_pw"
    by simp
  with run sp u r g show ?thesis by blast
qed

text \<open>
  C6 fails on the code for a group part with an empty field. For \<^verbatim>\<open>100,200,300\<close> the list
  given to \<^verbatim>\<open>setgroups\<close> is 100, 200, 300 and \<^verbatim>\<open>setgid\<close> gets 100, as the claim says. For
  \<^verbatim>\<open>100,,200\<close> the program counts two commas and allocates three slots, \<^verbatim>\<open>strtok\<close> delivers
  the two tokens \<^verbatim>\<open>100\<close> and \<^verbatim>\<open>200\<close>, and \<^verbatim>\<open>setgroups\<close> is called with three entries, the
  third one never written.
\<close>

theorem empty_group_field_leaves_slot_unwritten:
  "main demo_os proc0 [''su-exec'', ''alice:100,200,300'', ''/bin/true''] =
     Some (Exec [''/bin/true''],
       \<lparr>p_env = [(''PATH'', ''/bin''), (''HOME'', ''/home/alice'')],
        p_groups = [Some 100, Some 200, Some 300], p_stdout = [],
        p_trace = [Getpwnam ''alice'', Setenv ''HOME'' ''/home/alice'',
          Setgroups [Some 100, Some 200, Some 300], Setgid 100, Setuid 1000,
          Execvp [''/bin/true'']]\<rparr>) \<and>
   strtok_all ''100,,200'' = [''100'', ''200''] \<and>
   str_occurrences ''100,,200'' CHR '','' + 1 = 3 \<and>
   main demo_os proc0 [''su-exec'', ''alice:100,,200'', ''/bin/true''] =
     Some (Exec [''/bin/true''],
       \<lparr>p_env = [(''PATH'', ''/bin''), (''HOME'', ''/home/alice'')],
        p_groups = [Some 100, Some 200, None], p_stdout = [],
        p_trace = [Getpwnam ''alice'', Setenv ''HOME'' ''/home/alice'',
          Setgroups [Some 100, Some 200, None], Setgid 100, Setuid 1000,
          Execvp [''/bin/true'']]\<rparr>)"
  by code_simp

text \<open>
  C7, as the claim states it, fails: the loop of the program has no bound. On a system whose
  \<^verbatim>\<open>getgrouplist\<close> reports a too small buffer at every call, and whose allocator serves every
  request, the run of \<^verbatim>\<open>su-exec root /bin/true\<close> never leaves the loop.
\<close>

theorem retry_loop_counterexample:
  "main stuck_os proc0 [''su-exec'', ''root'', ''/bin/true''] = None"
proof -
  have r: "resolve_user stuck_os proc0 ''root''
      = Inr ((0, 0, Some root_pw), log_event (Getpwnam ''root'') proc0)"
    by code_simp
  have sp: "split_user_spec ([''su-exec'', ''root'', ''/bin/true''] ! 1) = (''root'', None)"
    by code_simp
  have l: "getgrouplist_loop stuck_os ''root'' 0 p 0 [] = None" for p
    by (rule getgrouplist_loop_never_ends) (simp_all add: stuck_os_def demo_os_def)
  have n: "pw_name root_pw = ''root''" by (simp add: root_pw_def)
  show ?thesis
    using r sp l n
    by (simp add: main_def Let_def explicit_groups_def passwd_groups_Some)
qed

text \<open>
  C7, amended. When \<^verbatim>\<open>getgrouplist\<close> keeps to its contract for the user, the loop ends from
  every initial buffer size, after at most two queries whatever its end. With room for all
  groups the first query succeeds. Otherwise the loop receives the required count, asks
  \<^verbatim>\<open>realloc\<close> for exactly that many slots (the count times \<^verbatim>\<open>sizeof(gid_t)\<close> bytes, and the new
  buffer has exactly that many entries), ends with the error of \<^verbatim>\<open>malloc\<close> after this one query
  when \<^verbatim>\<open>realloc\<close> fails, and else queries once more with that count, which succeeds. After
  the query that succeeds \<^verbatim>\<open>setgroups\<close> is called with the full membership that the system
  reports, whatever the initial size was, and the loop ends with success or with the error
  of \<^verbatim>\<open>setgroups\<close>. In \<^verbatim>\<open>main\<close> the loop starts with the count 0 and no buffer.
\<close>

theorem retry_loop_ends_under_contract:
  assumes c: "follows_contract sys name gid members" and len: "length members < 2 ^ 31"
    and n0: "0 \<le> n0" and cap: "length glist0 = nat n0"
  shows "getgrouplist_loop sys name gid p n0 glist0 =
           Some (if int (length members) \<le> n0 then
                   (case setgroups sys (map Some members)
                           (log_event (Getgrouplist name gid n0) p) of
                      (ok, p2) \<Rightarrow> if ok then Inr p2 else Inl (Err Err_setgroups, p2))
                 else
                   (case realloc sys (store_gids glist0 n0 (take (nat n0) members))
                           (length members * 4) of
                      None \<Rightarrow> Inl (Err Err_malloc, log_event (Getgrouplist name gid n0) p)
                    | Some glist1 \<Rightarrow>
                        (case setgroups sys (map Some members)
                                (log_event (Getgrouplist name gid (int (length members)))
                                   (log_event (Getgrouplist name gid n0) p)) of
                           (ok, p2) \<Rightarrow> if ok then Inr p2 else Inl (Err Err_setgroups, p2)))) \<and>
         (\<forall>glist1. realloc sys (store_gids glist0 n0 (take (nat n0) members))
                      (length members * 4) = Some glist1
                    \<longrightarrow> length glist1 = length members) \<and>
         (\<exists>r ns evs. getgrouplist_loop sys name gid p n0 glist0 = Some r \<and> length ns \<le> 2 \<and>
            (evs = [] \<or> evs = [Setgroups (map Some members)]) \<and>
            (\<forall>oc p1. r = Inl (oc, p1) \<longrightarrow>
               (oc = Err Err_malloc \<or> oc = Err Err_setgroups) \<and>
               p_trace p1 = p_trace p @ map (Getgrouplist name gid) ns @ evs) \<and>
            (\<forall>p1. r = Inr p1 \<longrightarrow>
               p_groups p1 = map Some members \<and>
               p_trace p1 = p_trace p @ map (Getgrouplist name gid) ns
                              @ [Setgroups (map Some members)])) \<and>
         passwd_groups sys p (Some e) gid = getgrouplist_loop sys (pw_name e) gid p 0 []"
proof (intro conjI)
  let ?k = "int (length members)"
  let ?pa = "log_event (Getgrouplist name gid n0) p"
  let ?pb = "log_event (Getgrouplist name gid ?k) ?pa"
  let ?gl = "store_gids glist0 n0 (take (nat n0) members)"
  let ?gs = "map Some members"
  have room: "length members \<le> length glist0" if "?k \<le> n0"
    using that n0 cap by simp
  show eq: "getgrouplist_loop sys name gid p n0 glist0 =
           Some (if ?k \<le> n0 then
                   (case setgroups sys ?gs ?pa of
                      (ok, p2) \<Rightarrow> if ok then Inr p2 else Inl (Err Err_setgroups, p2))
                 else
                   (case realloc sys ?gl (length members * 4) of
                      None \<Rightarrow> Inl (Err Err_malloc, ?pa)
                    | Some glist1 \<Rightarrow>
                        (case setgroups sys ?gs ?pb of
                           (ok, p2) \<Rightarrow> if ok then Inr p2 else Inl (Err Err_setgroups, p2))))"
  proof (cases "?k \<le> n0")
    case True
    from loop_with_room[OF c True room[OF True], of p] True show ?thesis by simp
  next
    case False
    then have small: "n0 < ?k" by simp
    from loop_without_room[OF c len small, of p glist0] False show ?thesis
      by (simp add: mult.commute)
  qed
  show sz: "\<forall>glist1. realloc sys ?gl (length members * 4) = Some glist1
                    \<longrightarrow> length glist1 = length members"
    by (auto dest: length_realloc)
  show "\<exists>r ns evs. getgrouplist_loop sys name gid p n0 glist0 = Some r \<and> length ns \<le> 2 \<and>
            (evs = [] \<or> evs = [Setgroups ?gs]) \<and>
            (\<forall>oc p1. r = Inl (oc, p1) \<longrightarrow>
               (oc = Err Err_malloc \<or> oc = Err Err_setgroups) \<and>
               p_trace p1 = p_trace p @ map (Getgrouplist name gid) ns @ evs) \<and>
            (\<forall>p1. r = Inr p1 \<longrightarrow>
               p_groups p1 = ?gs \<and>
               p_trace p1 = p_trace p @ map (Getgrouplist name gid) ns @ [Setgroups ?gs])"
  proof (cases "?k \<le> n0")
    case True
    obtain ok p2 where sg: "setgroups sys ?gs ?pa = (ok, p2)"
      by (cases "setgroups sys ?gs ?pa") auto
    have tr: "p_trace p2 = p_trace p @ map (Getgrouplist name gid) [n0] @ [Setgroups ?gs]"
      using setgroups_trace[OF sg] by simp
    have gr: "ok \<Longrightarrow> p_groups p2 = ?gs"
      using setgroups_fields[of sys ?gs ?pa p2] sg by simp
    have val: "getgrouplist_loop sys name gid p n0 glist0
        = Some (if ok then Inr p2 else Inl (Err Err_setgroups, p2))"
      using eq True sg by simp
    show ?thesis
      by (rule exI[of _ "if ok then Inr p2 else Inl (Err Err_setgroups, p2)"],
          rule exI[of _ "[n0]"], rule exI[of _ "[Setgroups ?gs]"])
         (use val tr gr in \<open>cases ok; simp\<close>)
  next
    case False
    show ?thesis
    proof (cases "realloc sys ?gl (length members * 4)")
      case None
      have val: "getgrouplist_loop sys name gid p n0 glist0 = Some (Inl (Err Err_malloc, ?pa))"
        using eq False None by simp
      show ?thesis
        by (rule exI[of _ "Inl (Err Err_malloc, ?pa)"], rule exI[of _ "[n0]"],
            rule exI[of _ "[]"])
           (use val in simp)
    next
      case (Some glist1)
      obtain ok p2 where sg: "setgroups sys ?gs ?pb = (ok, p2)"
        by (cases "setgroups sys ?gs ?pb") auto
      have tr: "p_trace p2 = p_trace p @ map (Getgrouplist name gid) [n0, ?k] @ [Setgroups ?gs]"
        using setgroups_trace[OF sg] by simp
      have gr: "ok \<Longrightarrow> p_groups p2 = ?gs"
        using setgroups_fields[of sys ?gs ?pb p2] sg by simp
      have val: "getgrouplist_loop sys name gid p n0 glist0
          = Some (if ok then Inr p2 else Inl (Err Err_setgroups, p2))"
        using eq False Some sg by simp
      show ?thesis
        by (rule exI[of _ "if ok then Inr p2 else Inl (Err Err_setgroups, p2)"],
            rule exI[of _ "[n0, ?k]"], rule exI[of _ "[Setgroups ?gs]"])
           (use val tr gr in \<open>cases ok; simp\<close>)
    qed
  qed
  show "passwd_groups sys p (Some e) gid = getgrouplist_loop sys (pw_name e) gid p 0 []"
    by (rule passwd_groups_Some)
qed

theorem retry_loop_ends_under_contract_witness:
  "follows_contract demo_os ''alice'' 1000 [1000, 50] \<and>
   length [1000, 50 :: gid_t] < 2 ^ 31 \<and>
   realloc demo_os (store_gids [] 0 (take (nat 0) [1000, 50])) (length [1000, 50 :: gid_t] * 4)
     = Some [None, None] \<and>
   getgrouplist_loop demo_os ''alice'' 1000 proc0 0 [] =
     Some (Inr \<lparr>p_env = [(''PATH'', ''/bin''), (''HOME'', ''/root'')],
       p_groups = [Some 1000, Some 50], p_stdout = [],
       p_trace = [Getgrouplist ''alice'' 1000 0, Getgrouplist ''alice'' 1000 2,
         Setgroups [Some 1000, Some 50]]\<rparr>) \<and>
   getgrouplist_loop demo_os ''alice'' 1000 proc0 5 (replicate 5 None) =
     Some (Inr \<lparr>p_env = [(''PATH'', ''/bin''), (''HOME'', ''/root'')],
       p_groups = [Some 1000, Some 50], p_stdout = [],
       p_trace = [Getgrouplist ''alice'' 1000 5, Setgroups [Some 1000, Some 50]]\<rparr>) \<and>
   getgrouplist_loop demo_os ''alice'' 1000 proc0 0 [] =
     Some (case setgroups demo_os (map Some [1000, 50])
                  (log_event (Getgrouplist ''alice'' 1000 2)
                     (log_event (Getgrouplist ''alice'' 1000 0) proc0)) of
             (ok, p2) \<Rightarrow> if ok then Inr p2 else Inl (Err Err_setgroups, p2)) \<and>
   getgrouplist_loop demo_os ''alice'' 1000 proc0 5 (replicate 5 None) =
     Some (case setgroups demo_os (map Some [1000, 50])
                  (log_event (Getgrouplist ''alice'' 1000 5) proc0) of
             (ok, p2) \<Rightarrow> if ok then Inr p2 else Inl (Err Err_setgroups, p2))"
proof -
  have c: "follows_contract demo_os ''alice'' 1000 [1000, 50]"
    by (simp add: follows_contract_def demo_os_def demo_members_def)
  have len: "length [1000, 50 :: gid_t] < 2 ^ 31" by simp
  have ra: "realloc demo_os (store_gids [] 0 (take (nat 0) [1000, 50]))
      (length [1000, 50 :: gid_t] * 4) = Some [None, None]"
    by code_simp
  have r0: "getgrouplist_loop demo_os ''alice'' 1000 proc0 0 [] =
     Some (Inr \<lparr>p_env = [(''PATH'', ''/bin''), (''HOME'', ''/root'')],
       p_groups = [Some 1000, Some 50], p_stdout = [],
       p_trace = [Getgrouplist ''alice'' 1000 0, Getgrouplist ''alice'' 1000 2,
         Setgroups [Some 1000, Some 50]]\<rparr>)"
    by code_simp
  have r5: "getgrouplist_loop demo_os ''alice'' 1000 proc0 5 (replicate 5 None) =
     Some (Inr \<lparr>p_env = [(''PATH'', ''/bin''), (''HOME'', ''/root'')],
       p_groups = [Some 1000, Some 50], p_stdout = [],
       p_trace = [Getgrouplist ''alice'' 1000 5, Setgroups [Some 1000, Some 50]]\<rparr>)"
    by code_simp
  have n0: "(0::int) \<le> 0" and n5: "(0::int) \<le> 5" by simp_all
  have c0: "length ([] :: gidbuf) = nat 0" by simp
  have c5: "length (replicate 5 None :: gidbuf) = nat 5" by simp
  from retry_loop_ends_under_contract [OF c len n0 c0, of proc0] ra
  have e0: "getgrouplist_loop demo_os ''alice'' 1000 proc0 0 [] =
     Some (case setgroups demo_os (map Some [1000, 50])
                  (log_event (Getgrouplist ''alice'' 1000 2)
                     (log_event (Getgrouplist ''alice'' 1000 0) proc0)) of
             (ok, p2) \<Rightarrow> if ok then Inr p2 else Inl (Err Err_setgroups, p2))"
    by simp
  from retry_loop_ends_under_contract [OF c len n5 c5, of proc0]
  have e5: "getgrouplist_loop demo_os ''alice'' 1000 proc0 5 (replicate 5 None) =
     Some (case setgroups demo_os (map Some [1000, 50])
                  (log_event (Getgrouplist ''alice'' 1000 5) proc0) of
             (ok, p2) \<Rightarrow> if ok then Inr p2 else Inl (Err Err_setgroups, p2))"
    by simp
  from c len ra r0 r5 e0 e5 show ?thesis by (simp only: simp_thms)
qed

text \<open>
  C4, as the claim states it, fails twice. The token \<^verbatim>\<open>-1\<close> is not a non-negative integer,
  yet the program takes it as numeric: \<^verbatim>\<open>get_gid\<close> returns the gid 4294967295 without any
  lookup. And the digits-only token \<^verbatim>\<open>4294967296\<close> does not yield its decimal value: as a
  group it is gid 0, as a user it is uid 0, the record of root.
\<close>

theorem numeric_token_counterexample:
  "get_gid demo_os proc0 ''-1'' = Inr (4294967295, proc0) \<and>
   list_all isdigit ''4294967296'' \<and> decimal ''4294967296'' = 4294967296 \<and>
   get_gid demo_os proc0 ''4294967296'' = Inr (0, proc0) \<and>
   resolve_user demo_os proc0 ''4294967296''
     = Inr ((0, 0, Some root_pw), log_event (Getpwuid 0) proc0)"
  by code_simp

text \<open>
  C4, amended. A user or group token is numeric for the program if and only if \<^verbatim>\<open>strtol\<close>
  consumes it entirely, that is if and only if it is empty or consists of optional white
  space, an optional sign and at least one decimal digit up to its end. A numeric token is
  never looked up by name and its id is the value of \<^verbatim>\<open>strtol\<close> reduced modulo \<open>2 ^ 32\<close>; any
  other token is resolved by name lookup alone (\<^verbatim>\<open>getgrnam\<close> for a group, \<^verbatim>\<open>getpwnam\<close> for a
  user). In particular a token whose last character is not a digit is never numeric, and for
  a digits-only token whose decimal value is below \<open>2 ^ 32\<close> the id is that value.
\<close>

theorem numeric_tokens:
  "(is_numeric s \<longleftrightarrow>
      s = [] \<or> (\<exists>ws sg ds. s = ws @ sg @ ds \<and> list_all isspace ws \<and>
                  sg \<in> {[], ''+'', ''-''} \<and> ds \<noteq> [] \<and> list_all isdigit ds)) \<and>
   get_gid sys p s =
     (if is_numeric s then Inr (word_of_int (fst (strtol s)), p)
      else (case getgrnam sys s of
              None \<Rightarrow> Inl (Err (Err_getgrnam s), log_event (Getgrnam s) p)
            | Some gr \<Rightarrow> Inr (gr_gid gr, log_event (Getgrnam s) p))) \<and>
   (s \<noteq> [] \<longrightarrow>
      resolve_user sys p s =
        (if is_numeric s then
           Inr (case getpwuid sys (word_of_int (fst (strtol s))) of
                  None \<Rightarrow> (word_of_int (fst (strtol s)), getgid sys, None)
                | Some e \<Rightarrow> (pw_uid e, pw_gid e, Some e),
                log_event (Getpwuid (word_of_int (fst (strtol s)))) p)
         else (case getpwnam sys s of
                 None \<Rightarrow> Inl (Err (Err_getpwnam s), log_event (Getpwnam s) p)
               | Some e \<Rightarrow> Inr ((pw_uid e, pw_gid e, Some e), log_event (Getpwnam s) p)))) \<and>
   (s \<noteq> [] \<and> \<not> isdigit (last s) \<longrightarrow> \<not> is_numeric s) \<and>
   (s \<noteq> [] \<and> list_all isdigit s \<and> decimal s < 2 ^ 32 \<longrightarrow>
      is_numeric s \<and> uint (word_of_int (fst (strtol s)) :: 32 word) = decimal s)"
proof (intro conjI impI)
  show "is_numeric s \<longleftrightarrow>
      s = [] \<or> (\<exists>ws sg ds. s = ws @ sg @ ds \<and> list_all isspace ws \<and>
                  sg \<in> {[], ''+'', ''-''} \<and> ds \<noteq> [] \<and> list_all isdigit ds)"
    by (rule is_numeric_iff)
  show "get_gid sys p s =
     (if is_numeric s then Inr (word_of_int (fst (strtol s)), p)
      else (case getgrnam sys s of
              None \<Rightarrow> Inl (Err (Err_getgrnam s), log_event (Getgrnam s) p)
            | Some gr \<Rightarrow> Inr (gr_gid gr, log_event (Getgrnam s) p)))"
    by (rule get_gid_eq)
  show "resolve_user sys p s =
        (if is_numeric s then
           Inr (case getpwuid sys (word_of_int (fst (strtol s))) of
                  None \<Rightarrow> (word_of_int (fst (strtol s)), getgid sys, None)
                | Some e \<Rightarrow> (pw_uid e, pw_gid e, Some e),
                log_event (Getpwuid (word_of_int (fst (strtol s)))) p)
         else (case getpwnam sys s of
                 None \<Rightarrow> Inl (Err (Err_getpwnam s), log_event (Getpwnam s) p)
               | Some e \<Rightarrow> Inr ((pw_uid e, pw_gid e, Some e), log_event (Getpwnam s) p)))"
    if "s \<noteq> []"
    using that by (rule resolve_user_eq)
  show "\<not> is_numeric s" if "s \<noteq> [] \<and> \<not> isdigit (last s)"
    using that trailing_non_digit by blast
  show "is_numeric s" if "s \<noteq> [] \<and> list_all isdigit s \<and> decimal s < 2 ^ 32"
    using that digits_only(1) by blast
  show "uint (word_of_int (fst (strtol s)) :: 32 word) = decimal s"
    if "s \<noteq> [] \<and> list_all isdigit s \<and> decimal s < 2 ^ 32"
    using that digits_only(3) by blast
qed

theorem numeric_tokens_witness:
  "''1000'' \<noteq> [] \<and> list_all isdigit ''1000'' \<and> decimal ''1000'' = 1000 \<and>
   is_numeric ''1000'' \<and> uint (word_of_int (fst (strtol ''1000'')) :: 32 word) = 1000 \<and>
   get_gid demo_os proc0 ''1000'' = Inr (1000, proc0) \<and>
   ''12a'' \<noteq> [] \<and> \<not> isdigit (last ''12a'') \<and> \<not> is_numeric ''12a'' \<and>
   get_gid demo_os proc0 ''12a''
     = Inl (Err (Err_getgrnam ''12a''), log_event (Getgrnam ''12a'') proc0) \<and>
   resolve_user demo_os proc0 ''12a''
     = Inl (Err (Err_getpwnam ''12a''), log_event (Getpwnam ''12a'') proc0)"
proof -
  have d: "''1000'' \<noteq> [] \<and> list_all isdigit ''1000'' \<and> decimal ''1000'' < 2 ^ 32"
    by code_simp
  have v: "decimal ''1000'' = 1000" by code_simp
  have t: "''12a'' \<noteq> [] \<and> \<not> isdigit (last ''12a'')" by code_simp
  have g: "getgrnam demo_os ''12a'' = None" "getpwnam demo_os ''12a'' = None" by code_simp+
  note T = numeric_tokens [of "''1000''" demo_os proc0]
  from T d have n: "is_numeric ''1000''"
    and u: "uint (word_of_int (fst (strtol ''1000'')) :: 32 word) = decimal ''1000''"
    by blast+
  from T have "get_gid demo_os proc0 ''1000'' =
     (if is_numeric ''1000'' then Inr (word_of_int (fst (strtol ''1000'')), proc0)
      else (case getgrnam demo_os ''1000'' of
              None \<Rightarrow> Inl (Err (Err_getgrnam ''1000''), log_event (Getgrnam ''1000'') proc0)
            | Some gr \<Rightarrow> Inr (gr_gid gr, log_event (Getgrnam ''1000'') proc0)))"
    by blast
  with n have gg: "get_gid demo_os proc0 ''1000''
      = Inr (word_of_int (fst (strtol ''1000'')), proc0)"
    by (simp only: if_True)
  have w: "(word_of_int (fst (strtol ''1000'')) :: 32 word) = 1000" by code_simp
  note U = numeric_tokens [of "''12a''" demo_os proc0]
  from U t have nn: "\<not> is_numeric ''12a''" by blast
  from U have "get_gid demo_os proc0 ''12a'' =
     (if is_numeric ''12a'' then Inr (word_of_int (fst (strtol ''12a'')), proc0)
      else (case getgrnam demo_os ''12a'' of
              None \<Rightarrow> Inl (Err (Err_getgrnam ''12a''), log_event (Getgrnam ''12a'') proc0)
            | Some gr \<Rightarrow> Inr (gr_gid gr, log_event (Getgrnam ''12a'') proc0)))"
    by blast
  with nn g(1) have gn: "get_gid demo_os proc0 ''12a''
      = Inl (Err (Err_getgrnam ''12a''), log_event (Getgrnam ''12a'') proc0)"
    by (simp only: if_False option.case)
  from U t have "resolve_user demo_os proc0 ''12a'' =
        (if is_numeric ''12a'' then
           Inr (case getpwuid demo_os (word_of_int (fst (strtol ''12a''))) of
                  None \<Rightarrow> (word_of_int (fst (strtol ''12a'')), getgid demo_os, None)
                | Some e \<Rightarrow> (pw_uid e, pw_gid e, Some e),
                log_event (Getpwuid (word_of_int (fst (strtol ''12a'')))) proc0)
         else (case getpwnam demo_os ''12a'' of
                 None \<Rightarrow> Inl (Err (Err_getpwnam ''12a''), log_event (Getpwnam ''12a'') proc0)
               | Some e \<Rightarrow> Inr ((pw_uid e, pw_gid e, Some e), log_event (Getpwnam ''12a'') proc0)))"
    by blast
  with nn g(2) have rn: "resolve_user demo_os proc0 ''12a''
      = Inl (Err (Err_getpwnam ''12a''), log_event (Getpwnam ''12a'') proc0)"
    by (simp only: if_False option.case)
  from d v t n u gg w nn gn rn show ?thesis by (simp only: simp_thms)
qed

end
